theory Spec2Isabelle
  imports Main "HOL-Library.Word" "HOL-Library.List_Lexorder" "HOL-Library.Sublist"
begin

unbundle bit_operations_syntax

section \<open>Data model\<close>

text \<open>
  Go's \<^verbatim>\<open>byte\<close>, \<^verbatim>\<open>int64\<close>, \<^verbatim>\<open>uint64\<close> and \<^verbatim>\<open>uint32\<close> are machine words. Go's
  \<^verbatim>\<open>int\<close> is taken at its 64-bit width. The contents of a \<^verbatim>\<open>[]byte\<close> are a list of bytes,
  and so are those of a Go \<^verbatim>\<open>string\<close>, which is a read-only sequence of bytes. Where the
  program takes slices of a \<^verbatim>\<open>[]byte\<close> that it received, the bytes of the underlying array
  between the length and the capacity of that slice are a second list, called \<open>spare\<close>. The
  order \<open><\<close> on bytes is the unsigned one, and \<open><\<close> on byte lists is the lexicographic order
  in which a proper prefix comes first (\<^verbatim>\<open>bytes.Compare\<close>).
\<close>

type_synonym byte = "8 word"
type_synonym int64 = "64 word"
type_synonym uint64 = "64 word"
type_synonym uint32 = "32 word"

text \<open>
  \<^verbatim>\<open>type Element interface{}\<close>: one constructor for each dynamic type that the type
  switch of \<^verbatim>\<open>Tuple.Pack\<close> tells apart, and \<open>Other\<close> (carrying the name of the Go type)
  for every dynamic type that reaches the \<^verbatim>\<open>default\<close> branch.
\<close>

text \<open>
  Modelled from the spec: the declarations of \<^verbatim>\<open>lex.KeyConvertible\<close> and \<^verbatim>\<open>lex.Key\<close> are
  missing from the source files. The specification says that "any external type that can
  present itself as a raw byte string may be encoded under the ByteString tag", so the
  constructor \<open>KeyConvertible\<close> carries the outcome of the call \<^verbatim>\<open>e.LexKey()\<close> that
  \<^verbatim>\<open>Tuple.Pack\<close> makes on such an element: the bytes it returns, or the panic it ends in.
  For a \<^verbatim>\<open>lex.Key\<close> and for a subspace the outcome is their bytes; for an element that is
  itself a \<^verbatim>\<open>tuple.Tuple\<close> \<open>t\<close> it is \<open>LexKey t\<close> below, that is, \<open>Pack t\<close>, which panics when
  \<open>t\<close> holds an unsupported element.
\<close>

text \<open>
  Failures are values: the \<^verbatim>\<open>panic\<close> of \<^verbatim>\<open>Tuple.Pack\<close> with the index and the element it
  prints, the error that \<^verbatim>\<open>Unpack\<close> returns with the typecode it prints, the error of
  \<^verbatim>\<open>subspace.Unpack\<close>, and the run-time panic of Go for an index or a slice bound out of
  range. The panic of \<^verbatim>\<open>Tuple.Pack\<close> holds an element, and a \<open>KeyConvertible\<close> element holds
  the panic of its \<^verbatim>\<open>LexKey()\<close>, so the two types are declared together.
\<close>

datatype element =
    Null
  | Int64 int64
  | Uint32 uint32
  | Uint64 uint64
  | GoInt int64
  | Byte byte
  | Bytes "byte list"
  | KeyConvertible "error + byte list"
  | Str "byte list"
  | Other string
and error =
    Unencodable nat element
  | UnknownTypecode byte
  | NotInSubspace
  | RuntimePanic

type_synonym tuple = "element list"

section \<open>Slices and the library functions of \<^verbatim>\<open>bytes\<close> and \<^verbatim>\<open>encoding/binary\<close>\<close>

text \<open>
  The slice expression \<^verbatim>\<open>b[lo:hi]\<close>, which panics unless \<^verbatim>\<open>0 <= lo <= hi <= cap(b)\<close>: the
  bytes it yields. \<open>b\<close> holds the \<^verbatim>\<open>len(b)\<close> bytes of the slice and \<open>spare\<close> the bytes of its
  array from \<^verbatim>\<open>len(b)\<close> up to \<^verbatim>\<open>cap(b)\<close>, which a bound beyond the length reaches.
  \<^verbatim>\<open>b[lo:]\<close> is \<^verbatim>\<open>b[lo:len(b)]\<close>.
\<close>

definition slice_expr :: "byte list \<Rightarrow> byte list \<Rightarrow> int \<Rightarrow> int \<Rightarrow> error + byte list" where
  "slice_expr b spare lo hi =
     (if 0 \<le> lo \<and> lo \<le> hi \<and> hi \<le> int (length b + length spare)
      then Inr (take (nat (hi - lo)) (drop (nat lo) (b @ spare)))
      else Inl RuntimePanic)"

text \<open>
  The built-in \<^verbatim>\<open>copy(dst, src)\<close>: the contents of \<^verbatim>\<open>dst\<close> afterwards. It copies
  \<^verbatim>\<open>min(len(dst), len(src))\<close> elements.
\<close>

definition copy :: "byte list \<Rightarrow> byte list \<Rightarrow> byte list" where
  "copy dst src =
     take (min (length dst) (length src)) src @ drop (min (length dst) (length src)) dst"

text \<open>\<^verbatim>\<open>bytes.IndexByte(b, c)\<close>: the index of the first \<^verbatim>\<open>c\<close> in \<^verbatim>\<open>b\<close>, or \<^verbatim>\<open>-1\<close>.\<close>

fun IndexByte :: "byte list \<Rightarrow> byte \<Rightarrow> int" where
  "IndexByte [] c = - 1"
| "IndexByte (x # xs) c =
     (if x = c then 0 else (let r = IndexByte xs c in if r < 0 then - 1 else r + 1))"

text \<open>\<^verbatim>\<open>bytes.HasPrefix(s, prefix)\<close>.\<close>

definition HasPrefix :: "byte list \<Rightarrow> byte list \<Rightarrow> bool" where
  "HasPrefix s p \<longleftrightarrow> length p \<le> length s \<and> take (length p) s = p"

text \<open>
  \<^verbatim>\<open>bytes.Replace(s, old, new, -1)\<close> for a non-empty \<^verbatim>\<open>old\<close>, as at both call sites: the
  non-overlapping occurrences of \<^verbatim>\<open>old\<close> are replaced from left to right. (For an empty
  \<^verbatim>\<open>old\<close>, which the program never passes, the model returns \<^verbatim>\<open>s\<close>.)
\<close>

function Replace :: "byte list \<Rightarrow> byte list \<Rightarrow> byte list \<Rightarrow> byte list" where
  "Replace s old new =
     (if s = [] \<or> old = [] then s
      else if take (length old) s = old then new @ Replace (drop (length old) s) old new
      else hd s # Replace (tl s) old new)"
  by pat_completeness auto
termination
  by (relation "measure (\<lambda>(s, old, new). length s)") auto

declare Replace.simps [simp del]

text \<open>
  \<^verbatim>\<open>binary.Write(&ibuf, binary.BigEndian, v)\<close> for a 64-bit \<^verbatim>\<open>v\<close>: its eight bytes, the
  most significant first. \<^verbatim>\<open>binary.Read(..., binary.BigEndian, &ret)\<close> reads eight bytes as
  the digits of a number in base 256, the most significant first.
\<close>

definition BigEndian_bytes :: "64 word \<Rightarrow> byte list" where
  "BigEndian_bytes v = map (\<lambda>k. ucast (drop_bit (8 * k) v)) [7, 6, 5, 4, 3, 2, 1, 0]"

definition BigEndian_uint64 :: "byte list \<Rightarrow> 64 word" where
  "BigEndian_uint64 bs = foldl (\<lambda>acc x. acc * 256 + ucast x) 0 bs"

section \<open>Package \<^verbatim>\<open>tuple\<close>: encoding\<close>

definition sizeLimits :: "uint64 list" where
  "sizeLimits =
     [0x0, 0xFF, 0xFFFF, 0xFFFFFF, 0xFFFFFFFF, 0xFFFFFFFFFF, 0xFFFFFFFFFFFF,
      0xFFFFFFFFFFFFFF, 0xFFFFFFFFFFFFFFFF]"

text \<open>
  \<^verbatim>\<open>encodeBytes(buf, code, b)\<close>: the buffer after the three writes. The buffer is passed
  in and returned.
\<close>

definition encodeBytes :: "byte list \<Rightarrow> byte \<Rightarrow> byte list \<Rightarrow> byte list" where
  "encodeBytes buf code b = buf @ [code] @ Replace b [0x00] [0x00, 0xFF] @ [0x00]"

text \<open>
  \<^verbatim>\<open>bisectLeft(u)\<close>: the loop \<^verbatim>\<open>for sizeLimits[n] < u { n += 1 }\<close> from \<^verbatim>\<open>n\<close> on. An index
  beyond the table is Go's run-time panic.
\<close>

function bisectLeft_loop :: "nat \<Rightarrow> uint64 \<Rightarrow> error + nat" where
  "bisectLeft_loop n u =
     (if n < length sizeLimits
      then (if sizeLimits ! n < u then bisectLeft_loop (n + 1) u else Inr n)
      else Inl RuntimePanic)"
  by pat_completeness auto
termination
  by (relation "measure (\<lambda>(n, u). length sizeLimits - n)") auto

declare bisectLeft_loop.simps [simp del]

definition bisectLeft :: "uint64 \<Rightarrow> error + nat" where
  "bisectLeft u = bisectLeft_loop 0 u"

text \<open>
  \<^verbatim>\<open>encodeInt(buf, i)\<close>: the buffer afterwards. \<^verbatim>\<open>i > 0\<close> and \<^verbatim>\<open>i < 0\<close> are signed
  comparisons; \<^verbatim>\<open>-i\<close> and \<^verbatim>\<open>int64(sizeLimits[n]) + i\<close> wrap around; \<^verbatim>\<open>byte(0x14 + n)\<close>
  and \<^verbatim>\<open>byte(0x14 - n)\<close> keep the low eight bits; \<^verbatim>\<open>ibuf.Bytes()[8-n:]\<close> panics when
  \<^verbatim>\<open>8 - n\<close> is negative.
\<close>

definition encodeInt :: "byte list \<Rightarrow> int64 \<Rightarrow> error + byte list" where
  "encodeInt buf i =
     (if i = 0 then Inr (buf @ [0x14])
      else if 0 < sint i then
        (case bisectLeft i of
           Inl e \<Rightarrow> Inl e
         | Inr n \<Rightarrow>
             if n \<le> 8
             then Inr (buf @ [of_nat (0x14 + n)] @ drop (8 - n) (BigEndian_bytes i))
             else Inl RuntimePanic)
      else
        (case bisectLeft (- i) of
           Inl e \<Rightarrow> Inl e
         | Inr n \<Rightarrow>
             if n \<le> 8
             then Inr (buf @ [of_int (0x14 - int n)]
                         @ drop (8 - n) (BigEndian_bytes (sizeLimits ! n + i)))
             else Inl RuntimePanic))"

text \<open>
  The body of the loop of \<^verbatim>\<open>Tuple.Pack\<close> for the element \<^verbatim>\<open>e\<close> at index \<^verbatim>\<open>i\<close>: the type
  switch, in the order of the source. \<^verbatim>\<open>int64(e)\<close> keeps the bits of a \<^verbatim>\<open>uint64\<close>, and
  extends a \<^verbatim>\<open>uint32\<close> and a \<^verbatim>\<open>byte\<close> with zeros. In the case \<^verbatim>\<open>lex.KeyConvertible\<close> the
  call \<^verbatim>\<open>e.LexKey()\<close> comes first: when it panics, the panic leaves \<^verbatim>\<open>Pack\<close>.
\<close>

fun Pack_element :: "byte list \<Rightarrow> nat \<Rightarrow> element \<Rightarrow> error + byte list" where
  "Pack_element buf i Null = Inr (buf @ [0x00])"
| "Pack_element buf i (Int64 e) = encodeInt buf e"
| "Pack_element buf i (Uint32 e) = encodeInt buf (ucast e)"
| "Pack_element buf i (Uint64 e) = encodeInt buf e"
| "Pack_element buf i (GoInt e) = encodeInt buf e"
| "Pack_element buf i (Byte e) = encodeInt buf (ucast e)"
| "Pack_element buf i (Bytes e) = Inr (encodeBytes buf 0x01 e)"
| "Pack_element buf i (KeyConvertible (Inl err)) = Inl err"
| "Pack_element buf i (KeyConvertible (Inr key)) = Inr (encodeBytes buf 0x01 key)"
| "Pack_element buf i (Str e) = Inr (encodeBytes buf 0x02 e)"
| "Pack_element buf i (Other ty) = Inl (Unencodable i (Other ty))"

text \<open>\<^verbatim>\<open>for i, e := range t\<close>, from index \<^verbatim>\<open>i\<close> on; a panic leaves the loop.\<close>

fun Pack_loop :: "byte list \<Rightarrow> nat \<Rightarrow> tuple \<Rightarrow> error + byte list" where
  "Pack_loop buf i [] = Inr buf"
| "Pack_loop buf i (e # es) =
     (case Pack_element buf i e of
        Inl err \<Rightarrow> Inl err
      | Inr buf' \<Rightarrow> Pack_loop buf' (i + 1) es)"

definition Pack :: "tuple \<Rightarrow> error + byte list" where
  "Pack t = Pack_loop [] 0 t"

section \<open>Package \<^verbatim>\<open>tuple\<close>: decoding\<close>

lemma IndexByte_lower: "- 1 \<le> IndexByte bp c"
  by (induction bp) (auto simp: Let_def)

text \<open>
  \<^verbatim>\<open>findTerminator(b)\<close>: the loop with its two variables \<^verbatim>\<open>bp\<close> and \<^verbatim>\<open>length\<close>. The index
  \<^verbatim>\<open>idx+1\<close> of \<^verbatim>\<open>bp[idx+1]\<close> is read only when it differs from \<^verbatim>\<open>len(bp)\<close>, and
  \<^verbatim>\<open>idx < len(bp)\<close>, so neither the index nor the slice \<^verbatim>\<open>bp[idx+2:]\<close> is out of range
  (lemma \<open>findTerminator_in_range\<close> below).
\<close>

function findTerminator_loop :: "byte list \<Rightarrow> int \<Rightarrow> int" where
  "findTerminator_loop bp len =
     (let idx = IndexByte bp 0x00 in
      if idx + 1 = int (length bp) \<or> bp ! nat (idx + 1) \<noteq> 0xFF
      then len + idx
      else findTerminator_loop (drop (nat (idx + 2)) bp) (len + idx + 2))"
  by pat_completeness auto
termination
proof (relation "measure (\<lambda>(bp, len). length bp)")
  show "wf (measure (\<lambda>(bp, len). length bp))" by simp
next
  fix bp :: "byte list" and len idx :: int
  assume idx: "idx = IndexByte bp 0x00"
    and cont: "\<not> (idx + 1 = int (length bp) \<or> bp ! nat (idx + 1) \<noteq> 0xFF)"
  have "bp \<noteq> []" using idx cont by auto
  moreover have "0 < nat (idx + 2)" using IndexByte_lower [of bp 0] idx by simp
  ultimately show "((drop (nat (idx + 2)) bp, len + idx + 2), (bp, len))
      \<in> measure (\<lambda>(bp, len). length bp)"
    by simp
qed

declare findTerminator_loop.simps [simp del]

definition findTerminator :: "byte list \<Rightarrow> int" where
  "findTerminator b = findTerminator_loop b 0"

text \<open>
  \<^verbatim>\<open>decodeBytes(b)\<close>, for the slice \<open>b\<close> with the bytes \<open>spare\<close> up to its capacity.
  \<^verbatim>\<open>b[1:]\<close> and \<^verbatim>\<open>b[1:idx+1]\<close> are slice expressions that can panic. The offset
  \<^verbatim>\<open>idx + 2\<close> is returned only after \<^verbatim>\<open>b[1:idx+1]\<close> has been taken, which needs
  \<^verbatim>\<open>0 <= idx\<close>, so it is a natural number.
\<close>

definition decodeBytes :: "byte list \<Rightarrow> byte list \<Rightarrow> error + (byte list \<times> nat)" where
  "decodeBytes b spare =
     (case slice_expr b spare 1 (int (length b)) of
        Inl e \<Rightarrow> Inl e
      | Inr b1 \<Rightarrow>
          (let idx = findTerminator b1 in
           case slice_expr b spare 1 (idx + 1) of
             Inl e \<Rightarrow> Inl e
           | Inr s \<Rightarrow> Inr (Replace s [0x00, 0xFF] [0x00], nat (idx + 2))))"

definition decodeString :: "byte list \<Rightarrow> byte list \<Rightarrow> error + (byte list \<times> nat)" where
  "decodeString b spare =
     (case decodeBytes b spare of
        Inl e \<Rightarrow> Inl e
      | Inr (bp, idx) \<Rightarrow> Inr (bp, idx))"

text \<open>
  \<^verbatim>\<open>decodeInt(b)\<close>. \<^verbatim>\<open>n\<close> is the absolute value of \<^verbatim>\<open>int(b[0]) - 20\<close>. The slice
  \<^verbatim>\<open>bp[8-n:]\<close> of the eight zero bytes panics for \<^verbatim>\<open>n > 8\<close>, and \<^verbatim>\<open>b[1:n+1]\<close> panics when
  \<^verbatim>\<open>n + 1\<close> exceeds the capacity of \<^verbatim>\<open>b\<close>; when it exceeds only the length, bytes of
  \<open>spare\<close> are read. \<^verbatim>\<open>ret -= int64(sizeLimits[n])\<close> wraps around.
\<close>

definition decodeInt :: "byte list \<Rightarrow> byte list \<Rightarrow> error + (int64 \<times> nat)" where
  "decodeInt b spare =
     (if b = [] then Inl RuntimePanic
      else if b ! 0 = 0x14 then Inr (0, 1)
      else
        (let neg = int (unat (b ! 0)) - 20 < 0;
             n = nat \<bar>int (unat (b ! 0)) - 20\<bar> in
         if 8 < n then Inl RuntimePanic
         else
           (case slice_expr b spare 1 (int n + 1) of
              Inl e \<Rightarrow> Inl e
            | Inr src \<Rightarrow>
                (let bp = replicate 8 0x00;
                     bp' = take (8 - n) bp @ copy (drop (8 - n) bp) src;
                     ret = BigEndian_uint64 bp' in
                 Inr (if neg then ret - sizeLimits ! n else ret, n + 1)))))"

text \<open>
  The \<^verbatim>\<open>switch\<close> in the loop of \<^verbatim>\<open>Unpack\<close> at offset \<^verbatim>\<open>i < len(b)\<close>: the decoded element
  and the offset to add, or the error that \<^verbatim>\<open>Unpack\<close> returns instead of a tuple. The
  slice \<^verbatim>\<open>b[i:]\<close> has the bytes of \<^verbatim>\<open>b\<close> from \<^verbatim>\<open>i\<close> on and the same bytes up to its capacity.
\<close>

definition Unpack_element :: "byte list \<Rightarrow> byte list \<Rightarrow> nat \<Rightarrow> error + (element \<times> nat)" where
  "Unpack_element b spare i =
     (if b ! i = 0x00 then Inr (Null, 1)
      else if b ! i = 0x01 then
        (case decodeBytes (drop i b) spare of
           Inl e \<Rightarrow> Inl e
         | Inr (el, off) \<Rightarrow> Inr (Bytes el, off))
      else if b ! i = 0x02 then
        (case decodeString (drop i b) spare of
           Inl e \<Rightarrow> Inl e
         | Inr (el, off) \<Rightarrow> Inr (Str el, off))
      else if 0x0c \<le> b ! i \<and> b ! i \<le> 0x1c then
        (case decodeInt (drop i b) spare of
           Inl e \<Rightarrow> Inl e
         | Inr (el, off) \<Rightarrow> Inr (Int64 el, off))
      else Inl (UnknownTypecode (b ! i)))"

lemma slice_Inr_iff:
  "slice_expr b spare lo hi = Inr s \<longleftrightarrow>
     0 \<le> lo \<and> lo \<le> hi \<and> hi \<le> int (length b + length spare)
     \<and> s = take (nat (hi - lo)) (drop (nat lo) (b @ spare))"
  by (auto simp: slice_expr_def)

lemma Unpack_element_offset: "Unpack_element b spare i = Inr (el, off) \<Longrightarrow> 0 < off"
  by (auto simp: Unpack_element_def decodeString_def decodeBytes_def decodeInt_def Let_def
      slice_Inr_iff split: if_splits sum.splits prod.splits)

text \<open>\<^verbatim>\<open>for i < len(b)\<close> with the variables \<^verbatim>\<open>i\<close> and \<^verbatim>\<open>t\<close> of \<^verbatim>\<open>Unpack\<close>.\<close>

function Unpack_loop :: "byte list \<Rightarrow> byte list \<Rightarrow> nat \<Rightarrow> tuple \<Rightarrow> error + tuple" where
  "Unpack_loop b spare i t =
     (if i < length b then
        (case Unpack_element b spare i of
           Inl e \<Rightarrow> Inl e
         | Inr (el, off) \<Rightarrow> Unpack_loop b spare (i + off) (t @ [el]))
      else Inr t)"
  by pat_completeness auto
termination
proof (relation "measure (\<lambda>(b, spare, i, t). length b - i)")
  show "wf (measure (\<lambda>(b, spare, i, t). length b - i))" by simp
next
  fix b spare :: "byte list" and i :: nat and t :: tuple and x2 el off
  assume "i < length b" and "Unpack_element b spare i = Inr x2" and "(el, off) = x2"
  then have "0 < off" using Unpack_element_offset [of b spare i el off] by simp
  with \<open>i < length b\<close>
  show "((b, spare, i + off, t @ [el]), (b, spare, i, t))
      \<in> measure (\<lambda>(b, spare, i, t). length b - i)"
    by simp
qed

declare Unpack_loop.simps [simp del]

text \<open>
  \<^verbatim>\<open>Unpack(b)\<close>, for the argument slice with the bytes \<open>b\<close> and the bytes \<open>spare\<close> of its
  array between its length and its capacity (none for a slice whose capacity is its
  length, such as a composite literal).
\<close>

definition Unpack :: "byte list \<Rightarrow> byte list \<Rightarrow> error + tuple" where
  "Unpack b spare = Unpack_loop b spare 0 []"

section \<open>Keys and ranges of a tuple\<close>

text \<open>\<^verbatim>\<open>concat(a, b...)\<close>: a fresh slice of zeros that receives \<^verbatim>\<open>a\<close> and then \<^verbatim>\<open>b\<close>.\<close>

definition concat_bytes :: "byte list \<Rightarrow> byte list \<Rightarrow> byte list" where
  "concat_bytes a b =
     (let r = replicate (length a + length b) 0x00;
          r' = copy r a
      in take (length a) r' @ copy (drop (length a) r') b)"

definition LexKey :: "tuple \<Rightarrow> error + byte list" where
  "LexKey t = Pack t"

definition LexRangeKeys :: "tuple \<Rightarrow> error + (byte list \<times> byte list)" where
  "LexRangeKeys t =
     (case Pack t of
        Inl e \<Rightarrow> Inl e
      | Inr p \<Rightarrow> Inr (concat_bytes p [0x00], concat_bytes p [0xFF]))"

section \<open>Package \<^verbatim>\<open>subspace\<close>\<close>

text \<open>
  \<^verbatim>\<open>type subspace struct { b []byte }\<close>. A \<^verbatim>\<open>lex.KeyConvertible\<close> argument \<^verbatim>\<open>k\<close> is
  given by the slice that \<^verbatim>\<open>k.LexKey()\<close> returns: its bytes and, in \<^verbatim>\<open>Unpack\<close>, the bytes
  \<open>spare\<close> up to its capacity.
\<close>

record subspace =
  b :: "byte list"

definition subspace_Bytes :: "subspace \<Rightarrow> byte list" where
  "subspace_Bytes s = b s"

definition subspace_Pack :: "subspace \<Rightarrow> tuple \<Rightarrow> error + byte list" where
  "subspace_Pack s t =
     (case Pack t of
        Inl e \<Rightarrow> Inl e
      | Inr p \<Rightarrow> Inr (concat_bytes (b s) p))"

definition subspace_Unpack :: "subspace \<Rightarrow> byte list \<Rightarrow> byte list \<Rightarrow> error + tuple" where
  "subspace_Unpack s key spare =
     (if \<not> HasPrefix key (b s) then Inl NotInSubspace
      else case slice_expr key spare (int (length (b s))) (int (length key)) of
             Inl e \<Rightarrow> Inl e
           | Inr rest \<Rightarrow> Unpack rest spare)"

definition subspace_Contains :: "subspace \<Rightarrow> byte list \<Rightarrow> bool" where
  "subspace_Contains s k = HasPrefix k (b s)"

section \<open>The notions of the specification\<close>

text \<open>
  The supported variants of an element are those that the type switch of \<^verbatim>\<open>Tuple.Pack\<close>
  names. An element is encodable when it is of a supported variant and, if it is a
  \<^verbatim>\<open>lex.KeyConvertible\<close>, its \<^verbatim>\<open>LexKey()\<close> returns bytes. The canonical elements are the
  four that \<^verbatim>\<open>Unpack\<close> produces: nil, \<^verbatim>\<open>[]byte\<close>, \<^verbatim>\<open>string\<close> and \<^verbatim>\<open>int64\<close>. The type
  normalization maps every integer-like element to the \<^verbatim>\<open>int64\<close> that \<^verbatim>\<open>Pack\<close> converts it
  to, and every byte-convertible one to the \<^verbatim>\<open>[]byte\<close> of its bytes.
\<close>

fun supported :: "element \<Rightarrow> bool" where
  "supported (Other ty) = False"
| "supported e = True"

fun encodable :: "element \<Rightarrow> bool" where
  "encodable (Other ty) = False"
| "encodable (KeyConvertible (Inl err)) = False"
| "encodable e = True"

fun canonical :: "element \<Rightarrow> bool" where
  "canonical Null = True"
| "canonical (Bytes x) = True"
| "canonical (Str x) = True"
| "canonical (Int64 x) = True"
| "canonical e = False"

fun normalize :: "element \<Rightarrow> element" where
  "normalize (Uint32 e) = Int64 (ucast e)"
| "normalize (Uint64 e) = Int64 e"
| "normalize (GoInt e) = Int64 e"
| "normalize (Byte e) = Int64 (ucast e)"
| "normalize (KeyConvertible (Inr key)) = Bytes key"
| "normalize e = e"

text \<open>
  The tuple order of the specification: elements are compared first by their variant
  (\<open>Null < ByteString < UnicodeString < Integer\<close>) and then, within one variant, byte by
  byte for the two kinds of strings and numerically for integers; tuples are compared
  element by element, and a strict prefix comes before the longer tuple.
\<close>

fun variant_rank :: "element \<Rightarrow> nat" where
  "variant_rank Null = 0"
| "variant_rank (Bytes x) = 1"
| "variant_rank (KeyConvertible x) = 1"
| "variant_rank (Str x) = 2"
| "variant_rank (Other ty) = 4"
| "variant_rank e = 3"

fun element_less :: "element \<Rightarrow> element \<Rightarrow> bool" where
  "element_less (Bytes x) (Bytes y) = (x < y)"
| "element_less (Str x) (Str y) = (x < y)"
| "element_less (Int64 x) (Int64 y) = (sint x < sint y)"
| "element_less x y = (variant_rank x < variant_rank y)"

fun tuple_less :: "tuple \<Rightarrow> tuple \<Rightarrow> bool" where
  "tuple_less [] [] = False"
| "tuple_less [] (y # ys) = True"
| "tuple_less (x # xs) [] = False"
| "tuple_less (x # xs) (y # ys) = (element_less x y \<or> (x = y \<and> tuple_less xs ys))"

text \<open>
  The integer encoding in the words of the specification, on mathematical integers: the
  minimal byte count \<open>n\<close> in \<open>0..8\<close> with \<open>magnitude \<le> 2\<^sup>8\<^sup>n - 1\<close>, the tag \<open>0x14 \<plusminus> n\<close>, and
  as payload the low-order \<open>n\<close> bytes, most significant first, of the value or of
  \<open>(2\<^sup>8\<^sup>n - 1) + value\<close>.
\<close>

definition min_byte_count :: "int \<Rightarrow> nat" where
  "min_byte_count m =
     (if m \<le> 2 ^ (8 * 0) - 1 then 0
      else if m \<le> 2 ^ (8 * 1) - 1 then 1
      else if m \<le> 2 ^ (8 * 2) - 1 then 2
      else if m \<le> 2 ^ (8 * 3) - 1 then 3
      else if m \<le> 2 ^ (8 * 4) - 1 then 4
      else if m \<le> 2 ^ (8 * 5) - 1 then 5
      else if m \<le> 2 ^ (8 * 6) - 1 then 6
      else if m \<le> 2 ^ (8 * 7) - 1 then 7
      else 8)"

fun low_order_bytes :: "nat \<Rightarrow> int \<Rightarrow> byte list" where
  "low_order_bytes 0 x = []"
| "low_order_bytes (Suc n) x = low_order_bytes n (x div 256) @ [of_int x]"

definition int_encoding_spec :: "int \<Rightarrow> byte list" where
  "int_encoding_spec v =
     (if v = 0 then [0x14]
      else let n = min_byte_count \<bar>v\<bar> in
        if 0 < v then of_nat (0x14 + n) # low_order_bytes n v
        else of_int (0x14 - int n) # low_order_bytes n ((2 ^ (8 * n) - 1) + v))"

text \<open>
  The two uses of \<^verbatim>\<open>bytes.Replace\<close> in the program: \<^verbatim>\<open>encodeBytes\<close> replaces every \<^verbatim>\<open>00\<close>
  by \<^verbatim>\<open>00 FF\<close>, and \<^verbatim>\<open>decodeBytes\<close> replaces every \<^verbatim>\<open>00 FF\<close> by \<^verbatim>\<open>00\<close>.
\<close>

definition escape :: "byte list \<Rightarrow> byte list" where
  "escape xs = Replace xs [0x00] [0x00, 0xFF]"

definition unescape :: "byte list \<Rightarrow> byte list" where
  "unescape xs = Replace xs [0x00, 0xFF] [0x00]"

text \<open>
  The bytes that one element contributes to a packed key, written with the integer
  encoding of the specification. Lemma \<open>Pack_element_encodable\<close> shows that these are the
  bytes that the loop body of \<^verbatim>\<open>Tuple.Pack\<close> appends to its buffer.
\<close>

fun encoding :: "element \<Rightarrow> byte list" where
  "encoding Null = [0x00]"
| "encoding (Int64 e) = int_encoding_spec (sint e)"
| "encoding (Uint32 e) = int_encoding_spec (sint (ucast e :: int64))"
| "encoding (Uint64 e) = int_encoding_spec (sint e)"
| "encoding (GoInt e) = int_encoding_spec (sint e)"
| "encoding (Byte e) = int_encoding_spec (sint (ucast e :: int64))"
| "encoding (Bytes e) = 0x01 # escape e @ [0x00]"
| "encoding (KeyConvertible (Inr key)) = 0x01 # escape key @ [0x00]"
| "encoding (KeyConvertible (Inl err)) = []"
| "encoding (Str e) = 0x02 # escape e @ [0x00]"
| "encoding (Other ty) = []"

text \<open>
  The number of the typecode of an integer: \<open>20\<close> for zero, \<open>20 + n\<close> for a positive and
  \<open>20 - n\<close> for a negative one, \<open>n\<close> being the minimal byte count of the magnitude.
\<close>

definition tag_number :: "int \<Rightarrow> int" where
  "tag_number v =
     (if v = 0 then 20
      else if 0 < v then 20 + int (min_byte_count v)
      else 20 - int (min_byte_count (- v)))"

text \<open>The elements whose encoding ends with the terminator \<^verbatim>\<open>00\<close> of a byte string.\<close>

fun string_like :: "element \<Rightarrow> bool" where
  "string_like (Bytes x) = True"
| "string_like (KeyConvertible x) = True"
| "string_like (Str x) = True"
| "string_like e = False"

section \<open>Byte strings: escaping and the terminator\<close>

lemma copy_replicate: "copy (replicate (length a + n) z) a = a @ replicate n z"
  by (simp add: copy_def)

lemma concat_bytes_append: "concat_bytes a c = a @ c"
  by (simp add: concat_bytes_def Let_def copy_replicate) (simp add: copy_def)

lemma escape_Nil [simp]: "escape [] = []"
  by (simp add: escape_def Replace.simps)

lemma escape_Cons [simp]:
  "escape (x # xs) = (if x = 0 then 0 # 0xFF # escape xs else x # escape xs)"
  by (simp add: escape_def Replace.simps [of "x # xs"])

lemma unescape_Nil [simp]: "unescape [] = []"
  by (simp add: unescape_def Replace.simps)

lemma unescape_zero_FF [simp]: "unescape (0 # 0xFF # xs) = 0 # unescape xs"
  by (simp add: unescape_def Replace.simps [of "0 # 0xFF # xs"])

lemma unescape_nonzero [simp]: "x \<noteq> 0 \<Longrightarrow> unescape (x # xs) = x # unescape xs"
  by (simp add: unescape_def Replace.simps [of "x # xs"])

lemma unescape_escape [simp]: "unescape (escape xs) = xs"
  by (induction xs) auto

lemma IndexByte_Cons_found:
  "c \<in> set bp \<Longrightarrow> x \<noteq> c \<Longrightarrow> IndexByte (x # bp) c = IndexByte bp c + 1 \<and> 0 \<le> IndexByte bp c"
  by (induction bp) (auto simp: Let_def)

lemma IndexByte_upper: "IndexByte bp c < int (length bp)"
  by (induction bp) (auto simp: Let_def)

lemma findTerminator_in_range:
  assumes "IndexByte bp 0x00 + 1 \<noteq> int (length bp)"
  shows "0 \<le> IndexByte bp 0x00 + 1 \<and> nat (IndexByte bp 0x00 + 1) < length bp
    \<and> nat (IndexByte bp 0x00 + 2) \<le> length bp"
  using assms IndexByte_lower [of bp 0] IndexByte_upper [of bp 0] by auto

lemma findTerminator_loop_skip:
  assumes "0 \<in> set bp" and "x \<noteq> 0"
  shows "findTerminator_loop (x # bp) len = findTerminator_loop bp (len + 1)"
proof -
  obtain k where k: "IndexByte bp 0 = int k"
    using IndexByte_Cons_found [OF assms] by (metis nonneg_int_cases)
  have i: "IndexByte (x # bp) 0 = int (Suc k)"
    using IndexByte_Cons_found [OF assms] k by simp
  have l: "findTerminator_loop (x # bp) len =
      (if int (Suc k) + 1 = int (length (x # bp)) \<or> (x # bp) ! nat (int (Suc k) + 1) \<noteq> 0xFF
       then len + int (Suc k)
       else findTerminator_loop (drop (nat (int (Suc k) + 2)) (x # bp)) (len + int (Suc k) + 2))"
    by (subst findTerminator_loop.simps) (simp only: i Let_def)
  have r: "findTerminator_loop bp (len + 1) =
      (if int k + 1 = int (length bp) \<or> bp ! nat (int k + 1) \<noteq> 0xFF
       then len + 1 + int k
       else findTerminator_loop (drop (nat (int k + 2)) bp) (len + 1 + int k + 2))"
    by (subst findTerminator_loop.simps) (simp only: k Let_def)
  have n1: "nat (int (Suc k) + 1) = Suc (Suc k)" and n2: "nat (int (Suc k) + 2) = Suc (Suc (Suc k))"
    and n3: "nat (int k + 1) = Suc k" and n4: "nat (int k + 2) = Suc (Suc k)"
    by simp_all
  have e: "len + int (Suc k) + 2 = len + 1 + int k + 2" by simp
  show ?thesis
    unfolding l r n1 n2 n3 n4 e by simp
qed

lemma findTerminator_loop_escaped:
  "findTerminator_loop (0 # 0xFF # bp) len = findTerminator_loop bp (len + 2)"
  by (subst findTerminator_loop.simps) simp

lemma findTerminator_loop_end:
  "rest = [] \<or> hd rest \<noteq> 0xFF \<Longrightarrow> findTerminator_loop (0 # rest) len = len"
  by (subst findTerminator_loop.simps) (cases rest; auto)

lemma findTerminator_loop_escape:
  "rest = [] \<or> hd rest \<noteq> 0xFF \<Longrightarrow>
   findTerminator_loop (escape xs @ 0 # rest) len = len + int (length (escape xs))"
proof (induction xs arbitrary: len)
  case Nil
  then show ?case by (simp add: findTerminator_loop_end)
next
  case (Cons x xs)
  show ?case
  proof (cases "x = 0")
    case True
    then show ?thesis using Cons by (simp add: findTerminator_loop_escaped)
  next
    case False
    then show ?thesis using Cons by (simp add: findTerminator_loop_skip)
  qed
qed

lemma slice_expr_within:
  assumes "0 \<le> lo" and "lo \<le> hi" and "hi \<le> int (length bs)"
  shows "slice_expr bs spare lo hi = Inr (take (nat (hi - lo)) (drop (nat lo) bs))"
proof -
  have "nat (hi - lo) \<le> length (drop (nat lo) bs)" using assms by simp
  then have "take (nat (hi - lo)) (drop (nat lo) bs @ drop (nat lo - length bs) spare)
      = take (nat (hi - lo)) (drop (nat lo) bs)"
    by simp
  then show ?thesis using assms by (simp add: slice_expr_def)
qed

lemma decodeBytes_escape:
  assumes "rest = [] \<or> hd rest \<noteq> 0xFF"
  shows "decodeBytes (c # escape xs @ 0 # rest) spare = Inr (xs, length (escape xs) + 2)"
proof -
  let ?bs = "c # escape xs @ 0 # rest"
  have s1: "slice_expr ?bs spare 1 (int (length ?bs)) = Inr (escape xs @ 0 # rest)"
    by (subst slice_expr_within) simp_all
  have f: "findTerminator (escape xs @ 0 # rest) = int (length (escape xs))"
    using assms by (simp add: findTerminator_def findTerminator_loop_escape)
  have s2: "slice_expr ?bs spare 1 (int (length (escape xs)) + 1) = Inr (escape xs)"
    by (subst slice_expr_within) simp_all
  show ?thesis
    unfolding decodeBytes_def s1
    by (simp add: f s2 unescape_def [symmetric] Let_def)
qed

section \<open>Integers: the encoder computes the encoding of the specification\<close>

lemma low_order_bytes_length [simp]: "length (low_order_bytes n x) = n"
  by (induction n arbitrary: x) auto

lemma ucast_drop_bit_byte:
  "(ucast (drop_bit n (v :: 64 word)) :: byte) = of_int (uint v div 2 ^ n)"
proof -
  have "uint (drop_bit n v) = int (unat (drop_bit n v))"
    by (rule uint_nat)
  also have "\<dots> = int (unat v div 2 ^ n)"
    by (subst unat_drop_bit_eq) (simp only: drop_bit_eq_div)
  also have "\<dots> = int (unat v) div 2 ^ n"
    by (simp only: zdiv_int of_nat_power of_nat_numeral)
  also have "\<dots> = uint v div 2 ^ n"
    by (simp only: uint_nat)
  finally show ?thesis by (simp only: ucast_eq)
qed

lemma low_order_bytes_map:
  "low_order_bytes n x = map (\<lambda>k. of_int (x div 2 ^ (8 * k))) (rev [0..<n])"
proof (induction n arbitrary: x)
  case 0
  then show ?case by simp
next
  case (Suc n)
  have "[0..<Suc n] = 0 # map Suc [0..<n]"
    by (simp add: upt_conv_Cons map_Suc_upt del: upt_Suc)
  moreover have "x div 256 div 2 ^ (8 * k) = x div 2 ^ (8 * Suc k)" for k
    by (simp add: zdiv_zmult2_eq power_add)
  ultimately show ?case
    using Suc.IH [of "x div 256"] by (simp add: rev_map comp_def del: upt_Suc)
qed

lemma rev_upt_8: "rev [0..<8] = [7, 6, 5, 4, 3, 2, 1, 0 :: nat]"
  by (simp add: upt_rec)

lemma BigEndian_bytes_low_order: "BigEndian_bytes v = low_order_bytes 8 (uint v)"
  unfolding low_order_bytes_map rev_upt_8 BigEndian_bytes_def
  by (simp only: ucast_drop_bit_byte)

lemma drop_low_order_bytes:
  "n \<le> m \<Longrightarrow> drop (m - n) (low_order_bytes m x) = low_order_bytes n x"
proof (induction m arbitrary: n x)
  case 0
  then show ?case by simp
next
  case (Suc m)
  show ?case
  proof (cases n)
    case 0
    then show ?thesis by simp
  next
    case (Suc k)
    with Suc.prems have "k \<le> m" by simp
    from Suc.IH [OF this, of "x div 256"] Suc show ?thesis by simp
  qed
qed

lemma div_256_mod:
  fixes x :: int
  assumes "0 \<le> M"
  shows "x div 256 mod M = x mod (256 * M) div 256"
proof -
  have "x mod (256 * M) = 256 * (x div 256 mod M) + x mod 256"
    using assms by (rule zmod_zmult2_eq)
  then show ?thesis by simp
qed

lemma mod_256_mod:
  fixes x :: int
  shows "x mod 256 = x mod (256 * M) mod 256"
  by (simp add: mod_mod_cancel)

lemma low_order_bytes_cong:
  "x mod 2 ^ (8 * n) = y mod 2 ^ (8 * n) \<Longrightarrow> low_order_bytes n x = low_order_bytes n y"
proof (induction n arbitrary: x y)
  case 0
  then show ?case by simp
next
  case (Suc n)
  have p: "(2::int) ^ (8 * Suc n) = 256 * 2 ^ (8 * n)" by (simp add: power_add)
  from Suc.prems have e: "x mod (256 * 2 ^ (8 * n)) = y mod (256 * 2 ^ (8 * n))"
    by (simp only: p)
  have "x mod 256 = y mod 256"
    using e mod_256_mod [of x "2 ^ (8 * n)"] mod_256_mod [of y "2 ^ (8 * n)"] by simp
  then have b: "(of_int x :: byte) = of_int y"
    by (simp add: word_of_int_eq_iff take_bit_eq_mod)
  have "(x div 256) mod 2 ^ (8 * n) = (y div 256) mod 2 ^ (8 * n)"
    using e div_256_mod [of "2 ^ (8 * n)" x] div_256_mod [of "2 ^ (8 * n)" y] by simp
  from Suc.IH [OF this] b show ?case by simp
qed

lemma min_byte_count_le: "min_byte_count m \<le> 8"
  by (simp add: min_byte_count_def)

lemma sizeLimits_nth: "n \<le> 8 \<Longrightarrow> sizeLimits ! n = of_int (2 ^ (8 * n) - 1)"
proof -
  assume "n \<le> 8"
  then consider "n = 0" | "n = 1" | "n = 2" | "n = 3" | "n = 4" | "n = 5" | "n = 6" | "n = 7" | "n = 8"
    by linarith
  then show ?thesis by cases (simp_all add: sizeLimits_def)
qed

lemma bisectLeft_eq: "bisectLeft u = Inr (min_byte_count (uint u))"
proof -
  have s: "sizeLimits ! 0 = 0" "sizeLimits ! 1 = 0xFF" "sizeLimits ! 2 = 0xFFFF"
    "sizeLimits ! 3 = 0xFFFFFF" "sizeLimits ! 4 = 0xFFFFFFFF" "sizeLimits ! 5 = 0xFFFFFFFFFF"
    "sizeLimits ! 6 = 0xFFFFFFFFFFFF" "sizeLimits ! 7 = 0xFFFFFFFFFFFFFF"
    "sizeLimits ! 8 = 0xFFFFFFFFFFFFFFFF"
    by (simp_all add: sizeLimits_def)
  have l: "length sizeLimits = 9" by (simp add: sizeLimits_def)
  have step: "bisectLeft_loop n u =
      (if sizeLimits ! n < u then bisectLeft_loop (n + 1) u else Inr n)" if "n < 9" for n
    using that by (subst bisectLeft_loop.simps) (simp add: l)
  have u: "uint u \<le> 18446744073709551615"
    using uint_lt2p [of u] by simp
  have b8: "bisectLeft_loop 8 u = Inr 8"
    using step [of 8] u by (simp add: s word_less_alt)
  have b7: "bisectLeft_loop 7 u = (if uint u \<le> 0xFFFFFFFFFFFFFF then Inr 7 else Inr 8)"
    using step [of 7] b8 by (simp add: s word_less_alt)
  have b6: "bisectLeft_loop 6 u = (if uint u \<le> 0xFFFFFFFFFFFF then Inr 6 else bisectLeft_loop 7 u)"
    using step [of 6] by (simp add: s word_less_alt)
  have b5: "bisectLeft_loop 5 u = (if uint u \<le> 0xFFFFFFFFFF then Inr 5 else bisectLeft_loop 6 u)"
    using step [of 5] by (simp add: s word_less_alt)
  have b4: "bisectLeft_loop 4 u = (if uint u \<le> 0xFFFFFFFF then Inr 4 else bisectLeft_loop 5 u)"
    using step [of 4] by (simp add: s word_less_alt)
  have b3: "bisectLeft_loop 3 u = (if uint u \<le> 0xFFFFFF then Inr 3 else bisectLeft_loop 4 u)"
    using step [of 3] by (simp add: s word_less_alt)
  have b2: "bisectLeft_loop 2 u = (if uint u \<le> 0xFFFF then Inr 2 else bisectLeft_loop 3 u)"
    using step [of 2] by (simp add: s word_less_alt)
  have b1: "bisectLeft_loop 1 u = (if uint u \<le> 0xFF then Inr 1 else bisectLeft_loop 2 u)"
    using step [of 1] s(2) by (simp add: word_less_alt numeral_2_eq_2 [symmetric])
  have b0: "bisectLeft_loop 0 u = (if uint u \<le> 0 then Inr 0 else bisectLeft_loop 1 u)"
  proof (cases "0 < uint u")
    case True
    then show ?thesis using step [of 0] by (simp add: s word_less_alt)
  next
    case False
    then have "uint u = 0" using uint_ge_0 [of u] by linarith
    then show ?thesis using step [of 0] by (simp add: s word_less_alt)
  qed
  show ?thesis
    unfolding bisectLeft_def b0 b1 b2 b3 b4 b5 b6 b7 min_byte_count_def by simp
qed

lemma of_int_sint_id: "(word_of_int (sint w) :: 'a::len word) = w"
  by simp

lemma sint_eq_0_iff: "sint (w :: 'a::len word) = 0 \<longleftrightarrow> w = 0"
  by (metis of_int_sint_id sint_0 word_of_int_0)

lemma uint_of_int_small:
  "0 \<le> k \<Longrightarrow> k < 2 ^ 64 \<Longrightarrow> uint (word_of_int k :: 64 word) = k"
  by (simp add: uint_word_of_int)

lemma sint_bounds64: "- (2 ^ 63) \<le> sint (w :: 64 word) \<and> sint w < 2 ^ 63"
  using sint_ge [of w] sint_lt [of w] by simp

lemma uint_pos: "0 \<le> sint (i :: 64 word) \<Longrightarrow> uint i = sint i"
proof -
  assume a: "0 \<le> sint i"
  have "uint (word_of_int (sint i) :: 64 word) = sint i"
    using a sint_bounds64 [of i] by (intro uint_of_int_small) auto
  then show ?thesis by (simp only: of_int_sint_id)
qed

lemma uint_neg: "sint (i :: 64 word) < 0 \<Longrightarrow> uint (- i) = - sint i"
proof -
  assume a: "sint i < 0"
  have "uint (word_of_int (- sint i) :: 64 word) = - sint i"
    using a sint_bounds64 [of i] by (intro uint_of_int_small) auto
  then show ?thesis by (simp only: wi_hom_neg [symmetric] of_int_sint_id)
qed

lemma low_order_bytes_uint_of_int:
  assumes "n \<le> 8"
  shows "low_order_bytes n (uint (word_of_int k :: 64 word)) = low_order_bytes n k"
proof (rule low_order_bytes_cong)
  have "8 * n \<le> 64" using assms by simp
  then have d: "(2::int) ^ (8 * n) dvd 2 ^ 64" by (rule le_imp_power_dvd)
  have "uint (word_of_int k :: 64 word) mod 2 ^ (8 * n) = k mod 2 ^ 64 mod 2 ^ (8 * n)"
    by (simp add: uint_word_of_int)
  also have "\<dots> = k mod 2 ^ (8 * n)"
    using d by (rule mod_mod_cancel)
  finally show "uint (word_of_int k :: 64 word) mod 2 ^ (8 * n) = k mod 2 ^ (8 * n)" .
qed

lemma encodeInt_spec: "encodeInt buf i = Inr (buf @ int_encoding_spec (sint i))"
proof -
  consider "i = 0" | "0 < sint i" | "sint i < 0"
    using sint_eq_0_iff [of i] by linarith
  then show ?thesis
  proof cases
    case 1
    then show ?thesis by (simp add: encodeInt_def int_encoding_spec_def)
  next
    case 2
    then have nz: "i \<noteq> 0" by auto
    have u: "uint i = sint i" using 2 by (intro uint_pos) simp
    have a: "\<bar>sint i\<bar> = sint i" using 2 by simp
    show ?thesis
      using 2 nz min_byte_count_le [of "sint i"]
      by (simp add: encodeInt_def int_encoding_spec_def bisectLeft_eq u a Let_def
          BigEndian_bytes_low_order drop_low_order_bytes)
  next
    case 3
    then have nz: "i \<noteq> 0" by auto
    have u: "uint (- i) = - sint i" using 3 by (rule uint_neg)
    have a: "\<bar>sint i\<bar> = - sint i" using 3 by simp
    define n where "n = min_byte_count (- sint i)"
    have n8: "n \<le> 8" unfolding n_def by (rule min_byte_count_le)
    have "sizeLimits ! n + i = word_of_int (2 ^ (8 * n) - 1 + sint i)"
      by (simp only: sizeLimits_nth [OF n8] wi_hom_add [symmetric] of_int_sint_id)
    then have p: "low_order_bytes n (uint (sizeLimits ! n + i))
        = low_order_bytes n (2 ^ (8 * n) - 1 + sint i)"
      by (simp only: low_order_bytes_uint_of_int [OF n8])
    show ?thesis
      using 3 nz n8 p
      by (simp add: encodeInt_def int_encoding_spec_def bisectLeft_eq u a Let_def
          BigEndian_bytes_low_order drop_low_order_bytes n_def [symmetric])
  qed
qed

section \<open>Packing appends the encodings of the elements\<close>

lemma Pack_element_encodable:
  "encodable e \<Longrightarrow> Pack_element buf i e = Inr (buf @ encoding e)"
  by (cases e rule: encodable.cases) (simp_all add: encodeInt_spec encodeBytes_def escape_def)

lemma Pack_loop_encodable:
  "list_all encodable es \<Longrightarrow> Pack_loop buf i es = Inr (buf @ concat (map encoding es))"
  by (induction es arbitrary: buf i) (simp_all add: Pack_element_encodable)

lemma Pack_encodable: "list_all encodable t \<Longrightarrow> Pack t = Inr (concat (map encoding t))"
  by (simp add: Pack_def Pack_loop_encodable)

lemma Pack_element_unsupported:
  "\<not> supported e \<Longrightarrow> Pack_element buf i e = Inl (Unencodable i e)"
  by (cases e rule: encodable.cases) simp_all

lemma Pack_loop_unsupported:
  "list_all encodable pre \<Longrightarrow> \<not> supported e \<Longrightarrow>
   Pack_loop buf i (pre @ e # post) = Inl (Unencodable (i + length pre) e)"
  by (induction pre arbitrary: buf i)
     (simp_all add: Pack_element_encodable Pack_element_unsupported)

lemma Pack_loop_LexKey_panic:
  "list_all encodable pre \<Longrightarrow>
   Pack_loop buf i (pre @ KeyConvertible (Inl err) # post) = Inl err"
  by (induction pre arbitrary: buf i) (simp_all add: Pack_element_encodable)

lemma encodable_supported: "encodable e \<Longrightarrow> supported e"
  by (cases e rule: encodable.cases) simp_all

lemma Unpack_element_error:
  "Unpack_element bs spare i = Inl e \<Longrightarrow> e = RuntimePanic \<or> e = UnknownTypecode (bs ! i)"
  by (auto simp: Unpack_element_def decodeString_def decodeBytes_def decodeInt_def Let_def
      slice_expr_def split: if_splits sum.splits prod.splits)

lemma Unpack_loop_error:
  "Unpack_loop bs spare i t = Inl e \<Longrightarrow> e = RuntimePanic \<or> (\<exists>c. e = UnknownTypecode c)"
proof (induction bs spare i t rule: Unpack_loop.induct)
  case (1 bs spare i t)
  from "1.prems" show ?case
    apply (subst (asm) Unpack_loop.simps)
    apply (auto split: if_splits sum.splits prod.splits dest: Unpack_element_error "1.IH")
    done
qed

lemma HasPrefix_iff: "HasPrefix s p \<longleftrightarrow> prefix p s"
  by (auto simp: HasPrefix_def prefix_def) (metis append_take_drop_id)

section \<open>Subspaces\<close>

lemma Unpack_not_NotInSubspace: "Unpack bs spare \<noteq> Inl NotInSubspace"
  using Unpack_loop_error [of bs spare 0 "[]" NotInSubspace] by (auto simp: Unpack_def)

lemma subspace_Unpack_prefix: "subspace_Unpack s (b s @ rest) spare = Unpack rest spare"
  by (simp add: subspace_Unpack_def HasPrefix_iff slice_expr_def)

lemma subspace_Pack_encodable:
  "subspace_Pack s t = Inr key \<Longrightarrow> \<exists>p. Pack t = Inr p \<and> key = b s @ p"
  by (auto simp: subspace_Pack_def concat_bytes_append split: sum.splits)

lemma disjoint_prefix_append:
  "\<not> prefix xs ys \<Longrightarrow> \<not> prefix ys xs \<Longrightarrow> \<not> prefix xs (ys @ zs)"
  by (metis prefix_append prefix_def)

section \<open>Decoding inverts encoding\<close>

lemma BigEndian_uint64_snoc:
  "BigEndian_uint64 (xs @ [x]) = BigEndian_uint64 xs * 256 + ucast x"
  by (simp add: BigEndian_uint64_def)

lemma foldl_zeros:
  "foldl (\<lambda>acc x. acc * 256 + ucast x) (0 :: 64 word) (replicate k (0 :: byte)) = 0"
  by (induction k) simp_all

lemma BigEndian_uint64_zeros: "BigEndian_uint64 (replicate k 0 @ xs) = BigEndian_uint64 xs"
  by (simp add: BigEndian_uint64_def foldl_zeros)

lemma ucast_of_int_byte: "(ucast (word_of_int x :: byte) :: 64 word) = word_of_int (x mod 256)"
  by (simp add: ucast_eq uint_word_of_int)

lemma BigEndian_uint64_low_order:
  "BigEndian_uint64 (low_order_bytes n x) = word_of_int (x mod 2 ^ (8 * n))"
proof (induction n arbitrary: x)
  case 0
  then show ?case by (simp add: BigEndian_uint64_def)
next
  case (Suc n)
  have p: "(2::int) ^ (8 * Suc n) = 256 * 2 ^ (8 * n)" by (simp add: power_add)
  have m: "x mod (256 * 2 ^ (8 * n)) = 256 * (x div 256 mod 2 ^ (8 * n)) + x mod 256"
    by (rule zmod_zmult2_eq) simp
  have "BigEndian_uint64 (low_order_bytes (Suc n) x)
      = word_of_int (x div 256 mod 2 ^ (8 * n)) * 256 + word_of_int (x mod 256)"
    by (simp only: low_order_bytes.simps BigEndian_uint64_snoc Suc.IH ucast_of_int_byte)
  also have "\<dots> = word_of_int (256 * (x div 256 mod 2 ^ (8 * n)) + x mod 256)"
    by (simp add: mult.commute)
  finally show ?case by (simp only: p m)
qed

lemma min_byte_count_fits:
  "m \<le> 2 ^ 64 - 1 \<Longrightarrow> m \<le> 2 ^ (8 * min_byte_count m) - 1"
  by (simp add: min_byte_count_def)

lemma min_byte_count_pos: "0 < m \<Longrightarrow> 0 < min_byte_count m"
  by (simp add: min_byte_count_def)

lemma decodeInt_payload:
  assumes n: "0 < n" "n \<le> 8" and x: "0 \<le> x" "x < 2 ^ (8 * n)"
    and tag: "uint tag = 20 + sg * int n" and sg: "sg = (1::int) \<or> sg = - 1"
  shows "decodeInt (tag # low_order_bytes n x @ rest) spare
    = Inr (if sg = - 1 then word_of_int x - sizeLimits ! n else word_of_int x, n + 1)"
proof -
  have t14: "tag \<noteq> 0x14"
    using tag n sg by (auto simp: word_uint_eq_iff)
  have sl: "slice_expr (tag # low_order_bytes n x @ rest) spare 1 (int n + 1)
      = Inr (low_order_bytes n x)"
    by (simp add: slice_expr_def)
  have cp: "copy (replicate n (0::byte)) (low_order_bytes n x) = low_order_bytes n x"
    by (simp add: copy_def)
  have v: "BigEndian_uint64 (replicate (8 - n) 0 @ low_order_bytes n x) = word_of_int x"
    using x by (simp add: BigEndian_uint64_zeros BigEndian_uint64_low_order)
  from sg show ?thesis
  proof
    assume "sg = 1"
    then have u: "uint tag = 20 + int n" using tag by simp
    show ?thesis
      unfolding decodeInt_def
      using t14 n \<open>sg = 1\<close> by (simp add: u sl cp v Let_def)
  next
    assume "sg = - 1"
    then have u: "uint tag = 20 - int n" using tag by simp
    show ?thesis
      unfolding decodeInt_def
      using t14 n \<open>sg = - 1\<close> by (simp add: u sl cp v Let_def)
  qed
qed

lemma uint_tag_pos: "n \<le> 8 \<Longrightarrow> uint (of_nat (0x14 + n) :: byte) = 20 + 1 * int n"
proof -
  assume "n \<le> 8"
  have "(of_nat (0x14 + n) :: byte) = word_of_int (20 + int n)" by simp
  then show ?thesis using \<open>n \<le> 8\<close> by (simp only: uint_word_of_int) simp
qed

lemma uint_tag_neg: "n \<le> 8 \<Longrightarrow> uint (of_int (0x14 - int n) :: byte) = 20 + (- 1) * int n"
proof -
  assume "n \<le> 8"
  have "uint (word_of_int (0x14 - int n) :: byte) = (0x14 - int n) mod 2 ^ 8"
    using uint_word_of_int [of "0x14 - int n", where 'a = 8] by simp
  also have "\<dots> = 20 - int n" using \<open>n \<le> 8\<close> by simp
  finally show ?thesis by simp
qed

lemma int_encoding_spec_length:
  "length (int_encoding_spec v) = (if v = 0 then 1 else 1 + min_byte_count \<bar>v\<bar>)"
  by (simp add: int_encoding_spec_def Let_def)

lemma decodeInt_encoding:
  "decodeInt (int_encoding_spec (sint i) @ rest) spare
     = Inr (i, length (int_encoding_spec (sint i)))"
proof -
  define v where "v = sint i"
  have iv: "word_of_int v = i" unfolding v_def by (rule of_int_sint_id)
  have bounds: "- (2 ^ 63) \<le> v" "v < 2 ^ 63" unfolding v_def using sint_bounds64 [of i] by auto
  consider "v = 0" | "0 < v" | "v < 0" by linarith
  then have "decodeInt (int_encoding_spec v @ rest) spare
      = Inr (i, length (int_encoding_spec v))"
  proof cases
    case 1
    with iv have "i = 0" by simp
    with 1 show ?thesis by (simp add: int_encoding_spec_def decodeInt_def)
  next
    case 2
    define n where "n = min_byte_count v"
    have n: "0 < n" "n \<le> 8"
      unfolding n_def using 2 by (simp_all add: min_byte_count_pos min_byte_count_le)
    have "v \<le> 2 ^ (8 * n) - 1"
      unfolding n_def using bounds by (intro min_byte_count_fits) simp
    then have x: "0 \<le> v" "v < 2 ^ (8 * n)" using 2 by simp_all
    have e: "int_encoding_spec v = of_nat (0x14 + n) # low_order_bytes n v"
      using 2 by (simp add: int_encoding_spec_def n_def Let_def)
    show ?thesis
      using decodeInt_payload [OF n x uint_tag_pos [OF n(2)], of rest spare] e iv by simp
  next
    case 3
    define n where "n = min_byte_count (- v)"
    have n: "0 < n" "n \<le> 8"
      unfolding n_def using 3 by (simp_all add: min_byte_count_pos min_byte_count_le)
    have "- v \<le> 2 ^ (8 * n) - 1"
      unfolding n_def using bounds by (intro min_byte_count_fits) simp
    then have x: "0 \<le> 2 ^ (8 * n) - 1 + v" "2 ^ (8 * n) - 1 + v < 2 ^ (8 * n)"
      using 3 by simp_all
    have e: "int_encoding_spec v = of_int (0x14 - int n) # low_order_bytes n (2 ^ (8 * n) - 1 + v)"
      using 3 by (simp add: int_encoding_spec_def n_def Let_def)
    have "word_of_int (2 ^ (8 * n) - 1 + v) - sizeLimits ! n = (word_of_int v :: 64 word)"
      by (simp only: sizeLimits_nth [OF n(2)] wi_hom_sub) simp
    then show ?thesis
      using decodeInt_payload [OF n x uint_tag_neg [OF n(2)], of rest spare] e iv by simp
  qed
  then show ?thesis by (simp only: v_def)
qed

lemma int_encoding_spec_tag:
  "\<exists>tag payload. int_encoding_spec v = tag # payload \<and> 0x0c \<le> tag \<and> tag \<le> 0x1c"
proof -
  have "0x0c \<le> (0x14 :: byte) \<and> (0x14 :: byte) \<le> 0x1c" by simp
  moreover have "0x0c \<le> (of_nat (0x14 + n) :: byte) \<and> (of_nat (0x14 + n) :: byte) \<le> 0x1c"
    if "n \<le> 8" for n
    using that uint_tag_pos [OF that] by (simp add: word_le_def)
  moreover have "0x0c \<le> (of_int (0x14 - int n) :: byte) \<and> (of_int (0x14 - int n) :: byte) \<le> 0x1c"
    if "n \<le> 8" for n
    using that uint_tag_neg [OF that] by (simp add: word_le_def)
  ultimately show ?thesis
    using min_byte_count_le [of "\<bar>v\<bar>"] by (simp add: int_encoding_spec_def Let_def)
qed

lemma encoding_tag:
  assumes "encodable e"
  shows "\<exists>tag payload. encoding e = tag # payload \<and> tag \<le> 0x1c"
  using assms int_encoding_spec_tag by (cases e rule: encodable.cases) (simp_all, blast+)

lemma decodeInt_tagged:
  assumes "drop i bs = int_encoding_spec (sint w) @ rest"
  shows "Unpack_element bs spare i = Inr (Int64 w, length (int_encoding_spec (sint w)))"
proof -
  obtain tag payload where e: "int_encoding_spec (sint w) = tag # payload"
    and t: "0x0c \<le> tag" "tag \<le> 0x1c"
    using int_encoding_spec_tag by blast
  from assms e have "i < length bs" by (cases "i < length bs") auto
  then have h: "bs ! i = tag" using assms e by (metis hd_drop_conv_nth list.sel(1) append_Cons)
  from t have "tag \<noteq> 0" "tag \<noteq> 1" "tag \<noteq> 2" by (auto simp: word_le_def)
  then show ?thesis
    using t by (simp add: Unpack_element_def h assms decodeInt_encoding)
qed

lemma Unpack_element_encoding:
  assumes "encodable e" and "drop i bs = encoding e @ rest"
    and "string_like e \<longrightarrow> rest = [] \<or> hd rest \<noteq> 0xFF"
  shows "Unpack_element bs spare i = Inr (normalize e, length (encoding e))"
proof -
  obtain tag payload where tp: "encoding e = tag # payload"
    using encoding_tag [OF assms(1)] by blast
  from assms(2) tp have "i < length bs" by (cases "i < length bs") auto
  then have h: "bs ! i = hd (encoding e)"
    using assms(2) tp by (metis hd_drop_conv_nth list.sel(1) append_Cons)
  show ?thesis
  proof (cases e)
    case Null
    then show ?thesis using h by (simp add: Unpack_element_def)
  next
    case (Int64 w)
    then show ?thesis using decodeInt_tagged [of i bs w rest spare] assms(2) by simp
  next
    case (Uint32 w)
    then show ?thesis using decodeInt_tagged [of i bs "ucast w" rest spare] assms(2) by simp
  next
    case (Uint64 w)
    then show ?thesis using decodeInt_tagged [of i bs w rest spare] assms(2) by simp
  next
    case (GoInt w)
    then show ?thesis using decodeInt_tagged [of i bs w rest spare] assms(2) by simp
  next
    case (Byte w)
    then show ?thesis using decodeInt_tagged [of i bs "ucast w" rest spare] assms(2) by simp
  next
    case (Bytes xs)
    then show ?thesis
      using h assms(2,3) by (simp add: Unpack_element_def decodeBytes_escape)
  next
    case (KeyConvertible r)
    with assms(1) obtain key where "r = Inr key" by (cases r) simp_all
    with KeyConvertible show ?thesis
      using h assms(2,3) by (simp add: Unpack_element_def decodeBytes_escape)
  next
    case (Str xs)
    then show ?thesis
      using h assms(2,3) by (simp add: Unpack_element_def decodeString_def decodeBytes_escape)
  next
    case (Other ty)
    with assms(1) show ?thesis by simp
  qed
qed

lemma Unpack_loop_encodings:
  assumes "list_all encodable es" and "drop i bs = concat (map encoding es) @ rest"
    and "es \<noteq> [] \<and> string_like (last es) \<longrightarrow> rest = [] \<or> hd rest \<noteq> 0xFF"
  shows "Unpack_loop bs spare i t
    = Unpack_loop bs spare (i + length (concat (map encoding es))) (t @ map normalize es)"
  using assms
proof (induction es arbitrary: i t)
  case Nil
  then show ?case by simp
next
  case (Cons e es)
  let ?r = "concat (map encoding es) @ rest"
  have s: "encodable e" and ss: "list_all encodable es" using Cons.prems(1) by simp_all
  have d: "drop i bs = encoding e @ ?r" using Cons.prems(2) by simp
  have r: "string_like e \<longrightarrow> ?r = [] \<or> hd ?r \<noteq> 0xFF"
  proof (cases "es = []")
    case True
    then show ?thesis using Cons.prems(3) by simp
  next
    case False
    then obtain e' es' where c: "es = e' # es'" by (cases es) auto
    with ss obtain tag payload where "encoding e' = tag # payload" and t: "tag \<le> 0x1c"
      using encoding_tag [of e'] by auto
    moreover have "tag \<noteq> 0xFF" using t by (auto simp: word_le_def)
    ultimately show ?thesis using c by simp
  qed
  have l: "es \<noteq> [] \<and> string_like (last es) \<longrightarrow> rest = [] \<or> hd rest \<noteq> 0xFF"
    using Cons.prems(3) by auto
  have el: "Unpack_element bs spare i = Inr (normalize e, length (encoding e))"
    using Unpack_element_encoding [OF s d r] .
  obtain tag payload where tp: "encoding e = tag # payload"
    using encoding_tag [OF s] by blast
  with d have i: "i < length bs" by (cases "i < length bs") auto
  have d': "drop (i + length (encoding e)) bs = ?r"
    using d by (metis append_eq_conv_conj drop_drop add.commute)
  have "Unpack_loop bs spare i t
      = Unpack_loop bs spare (i + length (encoding e)) (t @ [normalize e])"
    using i el by (subst Unpack_loop.simps) simp
  also have "\<dots> = Unpack_loop bs spare
      (i + length (encoding e) + length (concat (map encoding es)))
      ((t @ [normalize e]) @ map normalize es)"
    using Cons.IH [OF ss d' l] .
  finally show ?case by (simp add: add.assoc)
qed

lemma Unpack_encodings:
  assumes "list_all encodable es"
  shows "Unpack (concat (map encoding es)) spare = Inr (map normalize es)"
proof -
  have "Unpack_loop (concat (map encoding es)) spare 0 []
      = Unpack_loop (concat (map encoding es)) spare (0 + length (concat (map encoding es)))
          ([] @ map normalize es)"
    using assms by (intro Unpack_loop_encodings [where rest = "[]"]) simp_all
  also have "\<dots> = Inr (map normalize es)"
    by (subst Unpack_loop.simps) simp
  finally show ?thesis by (simp add: Unpack_def)
qed

section \<open>Normalization and concrete packed keys\<close>

lemma normalize_canonical: "encodable e \<Longrightarrow> canonical (normalize e)"
  by (cases e rule: encodable.cases) simp_all

lemma normalize_id: "canonical e \<Longrightarrow> normalize e = e"
  by (cases e rule: encodable.cases) simp_all

lemma canonical_encodable: "canonical e \<Longrightarrow> encodable e"
  by (cases e rule: encodable.cases) simp_all

lemma pack_mixed:
  "Pack [Null, Uint64 0xFFFFFFFFFFFFFFFF, Bytes [0x00, 0x01, 0x00], KeyConvertible (Inr [0x61]),
         Str [0x62, 0x00], GoInt 5, Byte 7, Uint32 9, Int64 (- 300)]
   = Inr [0x00, 0x13, 0xFE, 0x01, 0x00, 0xFF, 0x01, 0x00, 0xFF, 0x00, 0x01, 0x61, 0x00,
          0x02, 0x62, 0x00, 0xFF, 0x00, 0x15, 0x05, 0x15, 0x07, 0x15, 0x09, 0x12, 0xFE, 0xD3]"
  by code_simp

lemma pack_left: "Pack [Str [0x61, 0x00], GoInt 1] = Inr [0x02, 0x61, 0x00, 0xFF, 0x00, 0x15, 0x01]"
  by code_simp

lemma pack_right: "Pack [Bytes [], Null, Int64 (- 1)] = Inr [0x01, 0x00, 0x00, 0x13, 0xFE]"
  by code_simp

section \<open>Integer-like elements\<close>

lemma Pack_loop_cong_element:
  assumes "\<And>buf i. Pack_element buf i x = Pack_element buf i y"
  shows "Pack_loop buf i (pre @ x # post) = Pack_loop buf i (pre @ y # post)"
  by (induction pre arbitrary: buf i) (simp_all add: assms split: sum.splits)

lemma sint_of_large_uint:
  assumes "2 ^ 63 - 1 < uint (e :: 64 word)"
  shows "sint e = uint e - 2 ^ 64"
proof -
  have "sint (word_of_int (uint e) :: 64 word) = (uint e + 2 ^ 63) mod 2 ^ 64 - 2 ^ 63"
    using int_word_sint [of "uint e", where 'a = 64] by simp
  moreover have "(uint e + 2 ^ 63) mod 2 ^ 64 = uint e + 2 ^ 63 - 2 ^ 64"
  proof -
    have "uint e < 2 ^ 64" using uint_lt2p [of e] by simp
    then have "0 \<le> uint e + 2 ^ 63 - 2 ^ 64" "uint e + 2 ^ 63 - 2 ^ 64 < 2 ^ 64"
      using assms by simp_all
    then have "(uint e + 2 ^ 63 - 2 ^ 64) mod 2 ^ 64 = uint e + 2 ^ 63 - 2 ^ 64"
      by (intro mod_pos_pos_trivial)
    moreover have "(uint e + 2 ^ 63 - 2 ^ 64) mod 2 ^ 64 = (uint e + 2 ^ 63) mod 2 ^ 64"
      by (metis mod_diff_right_eq mod_self diff_zero)
    ultimately show ?thesis by simp
  qed
  ultimately show ?thesis by simp
qed

lemma int_encoding_spec_negative_tag:
  assumes "v < 0"
  shows "\<exists>tag payload. int_encoding_spec v = tag # payload \<and> tag < 0x14"
proof -
  define n where "n = min_byte_count \<bar>v\<bar>"
  have n: "0 < n" "n \<le> 8"
    unfolding n_def using assms by (simp_all add: min_byte_count_pos min_byte_count_le)
  have "uint (of_int (0x14 - int n) :: byte) < 20"
    using uint_tag_neg [OF n(2)] n(1) by simp
  then have "(of_int (0x14 - int n) :: byte) < 0x14" by (simp add: word_less_def)
  then show ?thesis using assms by (simp add: int_encoding_spec_def Let_def n_def)
qed

lemma pack_uint64_max: "Pack [Uint64 0xFFFFFFFFFFFFFFFF] = Inr [0x13, 0xFE]"
  by code_simp

section \<open>Unknown typecodes and truncated inputs\<close>

lemma Unpack_element_unknown:
  "c \<noteq> 0x00 \<Longrightarrow> c \<noteq> 0x01 \<Longrightarrow> c \<noteq> 0x02 \<Longrightarrow> \<not> (0x0c \<le> c \<and> c \<le> 0x1c) \<Longrightarrow>
   bs ! i = c \<Longrightarrow> Unpack_element bs spare i = Inl (UnknownTypecode c)"
  by (auto simp add: Unpack_element_def)

lemma findTerminator_no_zero: "findTerminator [0x41] = - 1"
  by code_simp

lemma findTerminator_FF_first: "findTerminator [0xFF, 0x14] = 0"
  by code_simp

lemma findTerminator_escape_last: "findTerminator [0x00, 0xFF] = 1"
  by code_simp

lemma unescape_nothing: "Replace [] [0x00, 0xFF] [0x00] = []"
  by code_simp

lemma unescape_single_zero: "Replace [0x00] [0x00, 0xFF] [0x00] = [0x00]"
  by code_simp

lemma unpack_truncated_1: "Unpack [0x01, 0xFF, 0x14] spare = Inr [Bytes [], Int64 0]"
  by (simp add: Unpack_def Unpack_loop.simps [of "[0x01, 0xFF, 0x14]"] Unpack_element_def
      decodeBytes_def decodeInt_def slice_expr_def findTerminator_FF_first unescape_nothing)

lemma pack_truncated_1: "Pack [Bytes [], Int64 0] = Inr [0x01, 0x00, 0x14]"
  by code_simp

lemma unpack_truncated_2: "Unpack [0x01, 0x00, 0xFF] spare = Inr [Bytes [0x00]]"
  by (simp add: Unpack_def Unpack_loop.simps [of "[0x01, 0x00, 0xFF]"] Unpack_element_def
      decodeBytes_def decodeInt_def slice_expr_def findTerminator_escape_last
      unescape_single_zero)

lemma pack_truncated_2: "Pack [Bytes [0x00]] = Inr [0x01, 0x00, 0xFF, 0x00]"
  by code_simp

lemma unpack_truncated_3: "Unpack [0x01, 0x41] spare = Inl RuntimePanic"
  by (simp add: Unpack_def Unpack_loop.simps [of "[0x01, 0x41]"] Unpack_element_def
      decodeBytes_def slice_expr_def findTerminator_no_zero)

lemma unpack_truncated_4: "Unpack [0x15] [] = Inl RuntimePanic"
  by code_simp

lemma unpack_truncated_5: "Unpack [0x15] (c # spare) = Inr [Int64 (ucast c)]"
  by (simp add: Unpack_def Unpack_loop.simps [of "[0x15]"] Unpack_element_def
      decodeInt_def slice_expr_def copy_def BigEndian_uint64_def foldl_zeros)

lemma pack_truncated_5: "Pack [Int64 7] = Inr [0x15, 0x07]"
  by code_simp

section \<open>The range of the extensions of a prefix\<close>

lemma append_less_iff: "xs @ ys < xs @ zs \<longleftrightarrow> ys < (zs :: byte list)"
  by (induction xs) simp_all

lemma append_le_iff: "xs @ ys \<le> xs @ zs \<longleftrightarrow> ys \<le> (zs :: byte list)"
  by (induction xs) simp_all

lemma range_prefix:
  fixes k :: "byte list"
  assumes "p @ [lo] \<le> k" and "k < p @ [hi]"
  shows "\<exists>c rest. k = p @ c # rest \<and> lo \<le> c \<and> c < hi"
  using assms
proof (induction p arbitrary: k)
  case Nil
  then show ?case by (cases k) auto
next
  case (Cons a p)
  from Cons.prems obtain a' k' where k: "k = a' # k'" by (cases k) auto
  with Cons.prems have "a' = a" by auto
  with Cons.prems k have "p @ [lo] \<le> k'" "k' < p @ [hi]" by auto
  from Cons.IH [OF this] show ?case using k \<open>a' = a\<close> by auto
qed

lemma in_range_iff:
  fixes k :: "byte list"
  shows "p @ [0x00] \<le> k \<and> k < p @ [0xFF] \<longleftrightarrow> (\<exists>c rest. k = p @ c # rest \<and> c \<noteq> 0xFF)"
proof
  assume "p @ [0x00] \<le> k \<and> k < p @ [0xFF]"
  then show "\<exists>c rest. k = p @ c # rest \<and> c \<noteq> 0xFF"
    using range_prefix [of p 0 k "0xFF"] by auto
next
  assume "\<exists>c rest. k = p @ c # rest \<and> c \<noteq> 0xFF"
  then obtain c rest where k: "k = p @ c # rest" and c: "c \<noteq> 0xFF" by blast
  have "c < 0xFF" using c by (simp add: word_less_def word_uint_eq_iff) (use uint_lt2p [of c] in simp)
  moreover have "0 < c \<or> 0 = c" by (auto simp: word_neq_0_conv)
  ultimately show "p @ [0x00] \<le> k \<and> k < p @ [0xFF]"
    unfolding k append_less_iff append_le_iff by auto
qed

lemma Unpack_loop_extends:
  "Unpack_loop bs spare i t = Inr r \<Longrightarrow>
   \<exists>more. r = t @ more \<and> (i < length bs \<longrightarrow> more \<noteq> [])"
proof (induction bs spare i t arbitrary: r rule: Unpack_loop.induct)
  case (1 bs spare i t)
  show ?case
  proof (cases "i < length bs")
    case False
    with "1.prems" show ?thesis by (subst (asm) Unpack_loop.simps) simp
  next
    case True
    with "1.prems" obtain el off where e: "Unpack_element bs spare i = Inr (el, off)"
      and l: "Unpack_loop bs spare (i + off) (t @ [el]) = Inr r"
      by (subst (asm) Unpack_loop.simps) (auto split: sum.splits)
    from "1.IH" [OF True e refl l] show ?thesis by auto
  qed
qed

lemma encoding_normalize: "encoding (normalize e) = encoding e"
  by (cases e rule: encodable.cases) simp_all

lemma encodable_normalize: "encodable (normalize e) = encodable e"
  by (cases e rule: encodable.cases) simp_all

lemma encodings_normalize: "concat (map encoding (map normalize q)) = concat (map encoding q)"
  by (induction q) (simp_all add: encoding_normalize)

lemma encodings_start:
  assumes "list_all encodable es" and "es \<noteq> []"
  shows "\<exists>c rest. concat (map encoding es) = c # rest \<and> c \<noteq> 0xFF"
proof -
  from assms obtain e es' where c: "es = e # es'" by (cases es) auto
  with assms obtain tag payload where "encoding e = tag # payload" and t: "tag \<le> 0x1c"
    using encoding_tag [of e] by auto
  moreover have "tag \<noteq> 0xFF" using t by (auto simp: word_le_def)
  ultimately show ?thesis using c by simp
qed

lemma extension_in_range:
  assumes "list_all encodable p" and "list_all encodable ext" and "ext \<noteq> []"
  shows "concat (map encoding p) @ [0x00] \<le> concat (map encoding (p @ ext))
    \<and> concat (map encoding (p @ ext)) < concat (map encoding p) @ [0xFF]"
  using encodings_start [OF assms(2,3)] by (subst in_range_iff) auto

lemma in_range_extension:
  assumes p: "list_all encodable p" and q: "list_all encodable q"
    and r: "concat (map encoding p) @ [0x00] \<le> concat (map encoding q)
      \<and> concat (map encoding q) < concat (map encoding p) @ [0xFF]"
  shows "strict_prefix (map normalize p) (map normalize q)"
proof -
  let ?pk = "concat (map encoding p)" and ?kq = "concat (map encoding q)"
  from r obtain c rest where k: "?kq = ?pk @ c # rest" and c: "c \<noteq> 0xFF"
    by (subst (asm) in_range_iff) blast
  have "Unpack_loop ?kq [] 0 [] = Unpack_loop ?kq [] (0 + length ?pk) ([] @ map normalize p)"
    using p c k by (intro Unpack_loop_encodings [where rest = "c # rest"]) auto
  moreover have "Unpack_loop ?kq [] 0 [] = Inr (map normalize q)"
    using Unpack_encodings [OF q, of "[]"] by (simp add: Unpack_def)
  ultimately have "Unpack_loop ?kq [] (length ?pk) (map normalize p) = Inr (map normalize q)"
    by simp
  from Unpack_loop_extends [OF this] k
  obtain ext where "map normalize q = map normalize p @ ext" and "ext \<noteq> []"
    by auto
  then show ?thesis by (auto simp: strict_prefix_def prefix_def)
qed

lemma strict_prefix_in_range:
  assumes p: "list_all encodable p" and q: "list_all encodable q"
    and s: "strict_prefix (map normalize p) (map normalize q)"
  shows "concat (map encoding p) @ [0x00] \<le> concat (map encoding q)
      \<and> concat (map encoding q) < concat (map encoding p) @ [0xFF]"
proof -
  from s obtain ext where m: "map normalize q = map normalize p @ ext" and ne: "ext \<noteq> []"
    by (auto simp: strict_prefix_def prefix_def)
  have np: "list_all encodable (map normalize p)"
    using p by (simp add: list_all_iff encodable_normalize)
  have "list_all encodable (map normalize q)"
    using q by (simp add: list_all_iff encodable_normalize)
  then have sm: "list_all encodable ext" unfolding m by simp
  have "concat (map encoding q) = concat (map encoding (map normalize p @ ext))"
    using encodings_normalize [of q] m by simp
  moreover have "concat (map encoding (map normalize p)) = concat (map encoding p)"
    by (rule encodings_normalize)
  ultimately show ?thesis
    using extension_in_range [OF np sm ne] by simp
qed

lemma pack_u: "Pack [Str [0x75]] = Inr [0x02, 0x75, 0x00]"
  by code_simp

lemma pack_u_1: "Pack ([Str [0x75]] @ [Int64 1]) = Inr [0x02, 0x75, 0x00, 0x15, 0x01]"
  by code_simp

lemma pack_u_nil: "Pack ([Str [0x75]] @ [Null]) = Inr [0x02, 0x75, 0x00, 0x00]"
  by code_simp

lemma pack_u0: "Pack [Str [0x75, 0x00]] = Inr [0x02, 0x75, 0x00, 0xFF, 0x00]"
  by code_simp

section \<open>The encoding preserves the order\<close>

lemma escape_less:
  "xs < ys \<Longrightarrow> r = [] \<or> hd r \<noteq> 0xFF \<Longrightarrow> escape xs @ 0 # r < escape ys @ 0 # s"
proof (induction xs arbitrary: ys)
  case Nil
  then obtain c ys' where ys: "ys = c # ys'" by (cases ys) auto
  have ff: "r < 0xFF # z" for z
  proof (cases r)
    case Nil
    then show ?thesis by simp
  next
    case (Cons h r')
    with Nil.prems(2) have "h \<noteq> 0xFF" by simp
    then have "h < 0xFF"
      by (simp add: word_less_def word_uint_eq_iff) (use uint_lt2p [of h] in simp)
    then show ?thesis using Cons by simp
  qed
  show ?case using ys ff by (auto simp: word_neq_0_conv)
next
  case (Cons x xs)
  then obtain y ys' where ys: "ys = y # ys'" by (cases ys) auto
  with Cons.prems have c: "x < y \<or> x = y \<and> xs < ys'" by simp
  then show ?case
  proof
    assume "x < y"
    then have "y \<noteq> 0" by (auto simp: word_less_def)
    then show ?thesis using ys \<open>x < y\<close> by (auto simp: word_neq_0_conv)
  next
    assume "x = y \<and> xs < ys'"
    then show ?thesis using ys Cons.IH [of ys'] Cons.prems(2) by simp
  qed
qed

lemma uint_of_int_byte: "uint (word_of_int x :: byte) = x mod 256"
  using uint_word_of_int [of x, where 'a = 8] by simp

lemma low_order_bytes_less:
  "0 \<le> a \<Longrightarrow> a < c \<Longrightarrow> c < 2 ^ (8 * n) \<Longrightarrow>
   low_order_bytes n a @ r < low_order_bytes n c @ s"
proof (induction n arbitrary: a c r s)
  case 0
  then show ?case by simp
next
  case (Suc n)
  have p: "(2::int) ^ (8 * Suc n) = 256 * 2 ^ (8 * n)" by (simp add: power_add)
  have le: "a div 256 \<le> c div 256" using Suc.prems(2) by (simp add: zdiv_mono1)
  show ?case
  proof (cases "a div 256 < c div 256")
    case True
    have "c div 256 < 2 ^ (8 * n)"
      using Suc.prems(3) unfolding p by (simp add: div_less_iff_less_mult mult.commute)
    moreover have "0 \<le> a div 256" using Suc.prems(1) by simp
    ultimately show ?thesis
      using Suc.IH [of "a div 256" "c div 256"] True by simp
  next
    case False
    with le have e: "a div 256 = c div 256" by simp
    have "a = 256 * (a div 256) + a mod 256" "c = 256 * (c div 256) + c mod 256" by simp_all
    with e Suc.prems(2) have "a mod 256 < c mod 256" by linarith
    then have "(word_of_int a :: byte) < word_of_int c"
      by (simp add: word_less_def uint_of_int_byte)
    then show ?thesis using e by (simp add: append_less_iff)
  qed
qed

lemma min_byte_count_mono: "a \<le> c \<Longrightarrow> min_byte_count a \<le> min_byte_count c"
  by (simp add: min_byte_count_def)

lemma tag_number_mono: "v \<le> w \<Longrightarrow> tag_number v \<le> tag_number w"
  using min_byte_count_mono [of v w] min_byte_count_mono [of "- w" "- v"]
  by (auto simp: tag_number_def)

lemma tag_number_bounds: "12 \<le> tag_number v \<and> tag_number v \<le> 28"
  using min_byte_count_le [of v] min_byte_count_le [of "- v"] by (simp add: tag_number_def)

lemma tag_number_sign:
  "(tag_number v < 20 \<longleftrightarrow> v < 0) \<and> (tag_number v = 20 \<longleftrightarrow> v = 0)"
  using min_byte_count_pos [of v] min_byte_count_pos [of "- v"] by (auto simp: tag_number_def)

lemma tag_byte_less:
  assumes "tag_number v < tag_number w"
  shows "(word_of_int (tag_number v) :: byte) < word_of_int (tag_number w)"
proof -
  have "tag_number v mod 256 = tag_number v" "tag_number w mod 256 = tag_number w"
    using tag_number_bounds [of v] tag_number_bounds [of w] by simp_all
  then show ?thesis using assms by (simp add: word_less_def uint_of_int_byte)
qed

lemma int_encoding_spec_form:
  "int_encoding_spec v =
     word_of_int (tag_number v)
       # (if v = 0 then []
          else if 0 < v then low_order_bytes (min_byte_count v) v
          else low_order_bytes (min_byte_count (- v)) (2 ^ (8 * min_byte_count (- v)) - 1 + v))"
  by (simp add: int_encoding_spec_def tag_number_def Let_def)

lemma int_encoding_spec_less:
  assumes vw: "v < w" and bv: "- (2 ^ 63) \<le> v" and bw: "w < 2 ^ 63"
  shows "int_encoding_spec v @ r < int_encoding_spec w @ s"
proof (cases "tag_number v < tag_number w")
  case True
  then show ?thesis
    using tag_byte_less [OF True] by (simp add: int_encoding_spec_form)
next
  case False
  with tag_number_mono [of v w] vw have teq: "tag_number v = tag_number w" by simp
  consider "v < 0" | "v = 0" | "0 < v" by linarith
  then show ?thesis
  proof cases
    case 1
    then have w: "w < 0" using teq tag_number_sign [of v] tag_number_sign [of w] by metis
    define n where "n = min_byte_count (- v)"
    have nw: "min_byte_count (- w) = n"
      using teq 1 w by (simp add: tag_number_def n_def)
    have "- v \<le> 2 ^ (8 * n) - 1"
      unfolding n_def using bv by (intro min_byte_count_fits) simp
    then have "0 \<le> 2 ^ (8 * n) - 1 + v" by simp
    moreover have "2 ^ (8 * n) - 1 + v < 2 ^ (8 * n) - 1 + w" using vw by simp
    moreover have "2 ^ (8 * n) - 1 + w < 2 ^ (8 * n)" using w by simp
    ultimately have "low_order_bytes n (2 ^ (8 * n) - 1 + v) @ r
        < low_order_bytes n (2 ^ (8 * n) - 1 + w) @ s"
      by (rule low_order_bytes_less)
    moreover have "int_encoding_spec v
        = word_of_int (tag_number w) # low_order_bytes n (2 ^ (8 * n) - 1 + v)"
      using 1 by (simp add: int_encoding_spec_form [of v] n_def teq)
    moreover have "int_encoding_spec w
        = word_of_int (tag_number w) # low_order_bytes n (2 ^ (8 * n) - 1 + w)"
      using w by (simp add: int_encoding_spec_form [of w] nw)
    ultimately show ?thesis by simp
  next
    case 2
    then have "w = 0" using teq tag_number_sign [of v] tag_number_sign [of w] by metis
    with 2 vw show ?thesis by simp
  next
    case 3
    then have w: "0 < w" using vw by simp
    define n where "n = min_byte_count w"
    have nv: "min_byte_count v = n"
      using teq 3 w by (simp add: tag_number_def n_def)
    have "w \<le> 2 ^ (8 * n) - 1"
      unfolding n_def using bw by (intro min_byte_count_fits) simp
    then have "w < 2 ^ (8 * n)" by simp
    moreover have "0 \<le> v" using 3 by simp
    ultimately have "low_order_bytes n v @ r < low_order_bytes n w @ s"
      using vw by (intro low_order_bytes_less)
    moreover have "int_encoding_spec v = word_of_int (tag_number w) # low_order_bytes n v"
      using 3 by (simp add: int_encoding_spec_form [of v] nv teq)
    moreover have "int_encoding_spec w = word_of_int (tag_number w) # low_order_bytes n w"
      using w by (simp add: int_encoding_spec_form [of w] n_def)
    ultimately show ?thesis by simp
  qed
qed

lemma small_less_int_encoding:
  assumes "uint (c :: byte) < 12"
  shows "c # r < int_encoding_spec v @ s"
proof -
  obtain tag payload where e: "int_encoding_spec v = tag # payload" and t: "0x0c \<le> tag"
    using int_encoding_spec_tag [of v] by blast
  from t assms have "c < tag" by (simp add: word_less_def word_le_def)
  with e show ?thesis by simp
qed

lemma int64_encoding_less:
  assumes "sint (v :: 64 word) < sint (w :: 64 word)"
  shows "int_encoding_spec (sint v) @ r < int_encoding_spec (sint w) @ s"
  using assms sint_bounds64 [of v] sint_bounds64 [of w]
  by (intro int_encoding_spec_less) simp_all

lemma element_less_encoding:
  assumes "canonical x" and "canonical y" and "element_less x y"
    and "r = [] \<or> hd r \<noteq> 0xFF"
  shows "encoding x @ r < encoding y @ s"
proof (cases x)
  case Null
  with assms(2,3) show ?thesis
    by (cases y) (simp_all add: small_less_int_encoding)
next
  case (Bytes xs)
  with assms(2,3,4) show ?thesis
    by (cases y) (simp_all add: small_less_int_encoding escape_less)
next
  case (Str xs)
  with assms(2,3,4) show ?thesis
    by (cases y) (simp_all add: small_less_int_encoding escape_less)
next
  case (Int64 v)
  with assms(2,3) show ?thesis
    by (cases y) (simp_all add: int64_encoding_less)
qed (use assms(1) in simp_all)

lemma sint_inject: "sint (v :: 64 word) = sint w \<Longrightarrow> v = w"
  by (metis of_int_sint_id)

lemma element_trichotomy:
  assumes "canonical x" and "canonical y"
  shows "element_less x y \<or> x = y \<or> element_less y x"
proof (cases x)
  case Null
  with assms(2) show ?thesis by (cases y) simp_all
next
  case (Bytes xs)
  with assms(2) show ?thesis by (cases y) auto
next
  case (Str xs)
  with assms(2) show ?thesis by (cases y) auto
next
  case (Int64 v)
  with assms(2) show ?thesis by (cases y) (auto dest: sint_inject)
qed (use assms(1) in simp_all)

lemma tuple_trichotomy:
  "list_all canonical xs \<Longrightarrow> list_all canonical ys \<Longrightarrow>
   tuple_less xs ys \<or> xs = ys \<or> tuple_less ys xs"
proof (induction xs ys rule: tuple_less.induct)
  case (4 x xs y ys)
  then show ?case using element_trichotomy [of x y] by auto
qed simp_all

lemma encodings_canonical_start:
  assumes "list_all canonical es"
  shows "concat (map encoding es) = [] \<or> hd (concat (map encoding es)) \<noteq> 0xFF"
proof (cases es)
  case Nil
  then show ?thesis by simp
next
  case (Cons e es')
  have "list_all encodable es" using assms by (simp add: list_all_iff canonical_encodable)
  with encodings_start [of es] Cons show ?thesis by auto
qed

lemma tuple_less_encodings:
  "list_all canonical xs \<Longrightarrow> list_all canonical ys \<Longrightarrow> tuple_less xs ys \<Longrightarrow>
   concat (map encoding xs) < concat (map encoding ys)"
proof (induction xs ys rule: tuple_less.induct)
  case 1
  then show ?case by simp
next
  case (2 y ys)
  then have "encodable y" by (simp add: canonical_encodable)
  then obtain tag payload where "encoding y = tag # payload"
    using encoding_tag by blast
  then show ?case by simp
next
  case (3 x xs)
  then show ?case by simp
next
  case (4 x xs y ys)
  from "4.prems"(3) have "element_less x y \<or> (x = y \<and> tuple_less xs ys)" by simp
  then show ?case
  proof
    assume "element_less x y"
    then show ?thesis
      using "4.prems"(1,2) element_less_encoding [of x y "concat (map encoding xs)"]
        encodings_canonical_start [of xs] by simp
  next
    assume a: "x = y \<and> tuple_less xs ys"
    then have "concat (map encoding xs) < concat (map encoding ys)"
      using "4.IH" "4.prems"(1,2) by simp
    then show ?thesis using a by (simp add: append_less_iff)
  qed
qed

lemma pack_a_minus_256: "Pack [Bytes [0x61], Int64 (- 256)] = Inr [0x01, 0x61, 0x00, 0x12, 0xFE, 0xFF]"
  by code_simp

lemma pack_a0_nil: "Pack [Bytes [0x61, 0x00], Null] = Inr [0x01, 0x61, 0x00, 0xFF, 0x00, 0x00]"
  by code_simp

section \<open>Worked examples\<close>

lemma low_order_bytes_numeral:
  "low_order_bytes (numeral k) x = low_order_bytes (pred_numeral k) (x div 256) @ [of_int x]"
  by (simp add: numeral_eq_Suc)

lemmas int_encoding_spec_eval =
  int_encoding_spec_def min_byte_count_def low_order_bytes_numeral

lemma spec_zero: "int_encoding_spec 0 = [0x14]"
  by (simp add: int_encoding_spec_eval)

lemma pack_zero: "Pack [Int64 0] = Inr [0x14]"
  by code_simp

lemma unpack_zero: "Unpack [0x14] spare = Inr [Int64 0]"
  using Unpack_encodings [of "[Int64 0]" spare] by (simp add: spec_zero)

lemma spec_one: "int_encoding_spec 1 = [0x15, 0x01]"
  by (simp add: int_encoding_spec_eval)

lemma pack_one: "Pack [Int64 1] = Inr [0x15, 0x01]"
  by code_simp

lemma unpack_one: "Unpack [0x15, 0x01] spare = Inr [Int64 1]"
  using Unpack_encodings [of "[Int64 1]" spare] by (simp add: spec_one)

lemma spec_minus_one: "int_encoding_spec (- 1) = [0x13, 0xFE]"
  by (simp add: int_encoding_spec_eval)

lemma pack_minus_one: "Pack [Int64 (- 1)] = Inr [0x13, 0xFE]"
  by code_simp

lemma unpack_minus_one: "Unpack [0x13, 0xFE] spare = Inr [Int64 (- 1)]"
  using Unpack_encodings [of "[Int64 (- 1)]" spare] by (simp add: spec_minus_one)

lemma spec_255: "int_encoding_spec 255 = [0x15, 0xFF]"
  by (simp add: int_encoding_spec_eval)

lemma pack_255: "Pack [Int64 255] = Inr [0x15, 0xFF]"
  by code_simp

lemma unpack_255: "Unpack [0x15, 0xFF] spare = Inr [Int64 255]"
  using Unpack_encodings [of "[Int64 255]" spare] by (simp add: spec_255)

lemma spec_256: "int_encoding_spec 256 = [0x16, 0x01, 0x00]"
  by (simp add: int_encoding_spec_eval)

lemma pack_256: "Pack [Int64 256] = Inr [0x16, 0x01, 0x00]"
  by code_simp

lemma unpack_256: "Unpack [0x16, 0x01, 0x00] spare = Inr [Int64 256]"
  using Unpack_encodings [of "[Int64 256]" spare] by (simp add: spec_256)

lemma spec_minus_256: "int_encoding_spec (- 256) = [0x12, 0xFE, 0xFF]"
  by (simp add: int_encoding_spec_eval)

lemma pack_minus_256: "Pack [Int64 (- 256)] = Inr [0x12, 0xFE, 0xFF]"
  by code_simp

lemma unpack_minus_256: "Unpack [0x12, 0xFE, 0xFF] spare = Inr [Int64 (- 256)]"
  using Unpack_encodings [of "[Int64 (- 256)]" spare] by (simp add: spec_minus_256)

lemma spec_max: "int_encoding_spec 9223372036854775807 = [0x1C, 0x7F, 0xFF, 0xFF, 0xFF, 0xFF, 0xFF, 0xFF, 0xFF]"
  by (simp add: int_encoding_spec_eval)

lemma pack_max: "Pack [Int64 9223372036854775807] = Inr [0x1C, 0x7F, 0xFF, 0xFF, 0xFF, 0xFF, 0xFF, 0xFF, 0xFF]"
  by code_simp

lemma unpack_max: "Unpack [0x1C, 0x7F, 0xFF, 0xFF, 0xFF, 0xFF, 0xFF, 0xFF, 0xFF] spare = Inr [Int64 9223372036854775807]"
  using Unpack_encodings [of "[Int64 9223372036854775807]" spare] by (simp add: spec_max)

lemma spec_min: "int_encoding_spec (- 9223372036854775808) = [0x0C, 0x7F, 0xFF, 0xFF, 0xFF, 0xFF, 0xFF, 0xFF, 0xFF]"
  by (simp add: int_encoding_spec_eval)

lemma pack_min: "Pack [Int64 (- 9223372036854775808)] = Inr [0x0C, 0x7F, 0xFF, 0xFF, 0xFF, 0xFF, 0xFF, 0xFF, 0xFF]"
  by code_simp

lemma unpack_min: "Unpack [0x0C, 0x7F, 0xFF, 0xFF, 0xFF, 0xFF, 0xFF, 0xFF, 0xFF] spare = Inr [Int64 (- 9223372036854775808)]"
  using Unpack_encodings [of "[Int64 (- 9223372036854775808)]" spare] by (simp add: spec_min)

lemma sint_max_int64: "sint (9223372036854775807 :: int64) = 2 ^ 63 - 1"
  by simp

lemma sint_min_int64: "sint (- 9223372036854775808 :: int64) = - (2 ^ 63)"
  by simp

lemma pack_user_int: "Pack [Str (map of_char ''user''), GoInt 42, Null]
     = Inr [0x02, 0x75, 0x73, 0x65, 0x72, 0x00, 0x15, 0x2A, 0x00]"
  by code_simp

lemma pack_user_int64: "Pack [Str (map of_char ''user''), Int64 42, Null]
     = Inr [0x02, 0x75, 0x73, 0x65, 0x72, 0x00, 0x15, 0x2A, 0x00]"
  by code_simp

lemma spec_42: "int_encoding_spec 42 = [0x15, 0x2A]"
  by (simp add: int_encoding_spec_eval)

lemma unpack_user: "Unpack [0x02, 0x75, 0x73, 0x65, 0x72, 0x00, 0x15, 0x2A, 0x00] spare
     = Inr [Str (map of_char ''user''), Int64 42, Null]"
  using Unpack_encodings [of "[Str (map of_char ''user''), Int64 42, Null]" spare]
  by (simp add: spec_42)

text \<open>
  C9: packing the tuple \<^verbatim>\<open>["user", 42, nil]\<close> (the constant \<^verbatim>\<open>42\<close> has type \<^verbatim>\<open>int\<close> in a
  tuple literal; the same holds for an \<^verbatim>\<open>int64\<close>) yields exactly the bytes
  \<^verbatim>\<open>02 75 73 65 72 00 15 2A 00\<close>, and unpacking exactly these bytes (in a slice of any
  capacity) returns \<^verbatim>\<open>["user", 42, nil]\<close> with \<^verbatim>\<open>42\<close> as an \<^verbatim>\<open>int64\<close>.
\<close>

theorem C9_user_42_nil:
  "Pack [Str (map of_char ''user''), GoInt 42, Null]
     = Inr [0x02, 0x75, 0x73, 0x65, 0x72, 0x00, 0x15, 0x2A, 0x00]
   \<and> Pack [Str (map of_char ''user''), Int64 42, Null]
     = Inr [0x02, 0x75, 0x73, 0x65, 0x72, 0x00, 0x15, 0x2A, 0x00]
   \<and> Unpack [0x02, 0x75, 0x73, 0x65, 0x72, 0x00, 0x15, 0x2A, 0x00] spare
     = Inr [Str (map of_char ''user''), Int64 42, Null]"
  by (intro conjI pack_user_int pack_user_int64 unpack_user)

text \<open>
  C5: each of the integers \<open>0\<close>, \<open>1\<close>, \<open>-1\<close>, \<open>255\<close>, \<open>256\<close>, \<open>-256\<close>, \<open>2\<^sup>6\<^sup>3 - 1\<close> and \<open>-2\<^sup>6\<^sup>3\<close> is
  packed to the bytes that the integer encoding of the specification prescribes (tag
  \<open>0x14\<close>, \<open>0x14 + n\<close> or \<open>0x14 - n\<close> for the minimal byte count \<open>n\<close>, then the low-order
  \<open>n\<close> bytes of the value or of \<open>(2\<^sup>8\<^sup>n - 1) + value\<close>), these bytes are the ones listed, and
  unpacking them (in a slice of any capacity) returns the same \<^verbatim>\<open>int64\<close>.
\<close>

theorem C5_integer_boundaries:
  "Pack [Int64 0] = Inr (int_encoding_spec 0)
   \<and> int_encoding_spec 0 = [0x14]
   \<and> Unpack [0x14] spare = Inr [Int64 0]
   \<and> Pack [Int64 1] = Inr (int_encoding_spec 1)
   \<and> int_encoding_spec 1 = [0x15, 0x01]
   \<and> Unpack [0x15, 0x01] spare = Inr [Int64 1]
   \<and> Pack [Int64 (- 1)] = Inr (int_encoding_spec (- 1))
   \<and> int_encoding_spec (- 1) = [0x13, 0xFE]
   \<and> Unpack [0x13, 0xFE] spare = Inr [Int64 (- 1)]
   \<and> Pack [Int64 255] = Inr (int_encoding_spec 255)
   \<and> int_encoding_spec 255 = [0x15, 0xFF]
   \<and> Unpack [0x15, 0xFF] spare = Inr [Int64 255]
   \<and> Pack [Int64 256] = Inr (int_encoding_spec 256)
   \<and> int_encoding_spec 256 = [0x16, 0x01, 0x00]
   \<and> Unpack [0x16, 0x01, 0x00] spare = Inr [Int64 256]
   \<and> Pack [Int64 (- 256)] = Inr (int_encoding_spec (- 256))
   \<and> int_encoding_spec (- 256) = [0x12, 0xFE, 0xFF]
   \<and> Unpack [0x12, 0xFE, 0xFF] spare = Inr [Int64 (- 256)]
   \<and> Pack [Int64 9223372036854775807] = Inr (int_encoding_spec 9223372036854775807)
   \<and> int_encoding_spec 9223372036854775807 = [0x1C, 0x7F, 0xFF, 0xFF, 0xFF, 0xFF, 0xFF, 0xFF, 0xFF]
   \<and> Unpack [0x1C, 0x7F, 0xFF, 0xFF, 0xFF, 0xFF, 0xFF, 0xFF, 0xFF] spare = Inr [Int64 9223372036854775807]
   \<and> Pack [Int64 (- 9223372036854775808)] = Inr (int_encoding_spec (- 9223372036854775808))
   \<and> int_encoding_spec (- 9223372036854775808) = [0x0C, 0x7F, 0xFF, 0xFF, 0xFF, 0xFF, 0xFF, 0xFF, 0xFF]
   \<and> Unpack [0x0C, 0x7F, 0xFF, 0xFF, 0xFF, 0xFF, 0xFF, 0xFF, 0xFF] spare = Inr [Int64 (- 9223372036854775808)]
   \<and> sint (9223372036854775807 :: int64) = 2 ^ 63 - 1
   \<and> sint (- 9223372036854775808 :: int64) = - (2 ^ 63)"
  by (simp only: spec_zero pack_zero unpack_zero spec_one pack_one unpack_one spec_minus_one pack_minus_one unpack_minus_one spec_255 pack_255 unpack_255 spec_256 pack_256 unpack_256 spec_minus_256 pack_minus_256 unpack_minus_256 spec_max pack_max unpack_max spec_min pack_min unpack_min
      sint_max_int64 sint_min_int64 simp_thms)

section \<open>Encode-time failure\<close>

text \<open>
  The claim C8 as stated fails for a tuple that holds a tuple. In
  \<^verbatim>\<open>Tuple{"a", Tuple{3.5}, true}\<close> the first two elements are of supported variants (a
  \<^verbatim>\<open>string\<close>, and a \<^verbatim>\<open>Tuple\<close>, which is a \<^verbatim>\<open>lex.KeyConvertible\<close>), and the first element
  that is not is the \<^verbatim>\<open>bool\<close> at index 2. \<^verbatim>\<open>Pack\<close> calls \<^verbatim>\<open>LexKey()\<close> on the inner tuple,
  which is \<^verbatim>\<open>Pack\<close> again and panics at the \<^verbatim>\<open>float64\<close>: the panic that leaves the outer
  \<^verbatim>\<open>Pack\<close> reports index 0 and type \<^verbatim>\<open>float64\<close>, not index 2 and type \<^verbatim>\<open>bool\<close>.
\<close>

theorem C8_nested_tuple_counterexample:
  "supported (Str [0x61])
   \<and> supported (KeyConvertible (LexKey [Other ''float64'']))
   \<and> \<not> supported (Other ''bool'')
   \<and> LexKey [Other ''float64''] = Inl (Unencodable 0 (Other ''float64''))
   \<and> Pack [Str [0x61], KeyConvertible (LexKey [Other ''float64'']), Other ''bool'']
       = Inl (Unencodable 0 (Other ''float64''))
   \<and> Pack [Str [0x61], KeyConvertible (LexKey [Other ''float64'']), Other ''bool'']
       \<noteq> Inl (Unencodable 2 (Other ''bool''))"
  by (simp add: LexKey_def Pack_def encodeBytes_def)

text \<open>
  C8, amended: if an element is not of a supported variant, and every element before it
  is of a supported variant and, where it is a \<^verbatim>\<open>lex.KeyConvertible\<close>, its \<^verbatim>\<open>LexKey()\<close>
  returns bytes, then \<^verbatim>\<open>Pack\<close> fails at that element: the result is the panic that
  carries its index and the element itself (from which the message prints value and
  type), whatever follows it, and no bytes are returned. If instead the element after
  such a prefix is a \<^verbatim>\<open>lex.KeyConvertible\<close> whose \<^verbatim>\<open>LexKey()\<close> panics (a tuple that holds
  an unsupported element), \<^verbatim>\<open>Pack\<close> ends in that panic, and no bytes are returned.
\<close>

theorem C8_first_unsupported_element:
  assumes "list_all encodable pre" and "\<not> supported e"
  shows "Pack (pre @ e # post) = Inl (Unencodable (length pre) e)
    \<and> Pack (pre @ KeyConvertible (Inl err) # post) = Inl err"
  using assms by (simp add: Pack_def Pack_loop_unsupported Pack_loop_LexKey_panic)

lemma lexkey_of_nil_tuple: "LexKey [Null] = Inr [0x00]"
  by (simp add: LexKey_def Pack_def)

theorem C8_first_unsupported_element_witness:
  "list_all encodable [Str [0x61], GoInt 7, KeyConvertible (LexKey [Null])]
   \<and> \<not> supported (Other ''float64'')
   \<and> Pack ([Str [0x61], GoInt 7, KeyConvertible (LexKey [Null])]
             @ Other ''float64'' # [Null, Other ''bool''])
       = Inl (Unencodable 3 (Other ''float64''))
   \<and> Pack ([Str [0x61], GoInt 7, KeyConvertible (LexKey [Null])]
             @ KeyConvertible (Inl (Unencodable 0 (Other ''float64''))) # [Other ''bool''])
       = Inl (Unencodable 0 (Other ''float64''))"
proof -
  have h1: "list_all encodable [Str [0x61], GoInt 7, KeyConvertible (LexKey [Null])]"
    by (simp add: lexkey_of_nil_tuple)
  have h2: "\<not> supported (Other ''float64'')" by simp
  show ?thesis
    using h1 h2
      C8_first_unsupported_element [OF h1 h2, of "[Null, Other ''bool'']"
        "Unencodable 0 (Other ''float64'')"]
      C8_first_unsupported_element [OF h1 h2, of "[Other ''bool'']"
        "Unencodable 0 (Other ''float64'')"]
    by simp
qed

section \<open>Subspaces scope keys by their prefix\<close>

text \<open>
  C7: \<^verbatim>\<open>Contains\<close> is true exactly for the keys that start with the prefix of the
  subspace. \<^verbatim>\<open>Unpack\<close> of a subspace fails with the error "key is not in subspace"
  exactly for the keys that do not start with the prefix, and for a key that does, it
  returns what \<^verbatim>\<open>tuple.Unpack\<close> returns for the rest of the key (a slice of the key, with
  the capacity that remains). Hence, when neither of
  the prefixes of two subspaces is a prefix of the other, a key packed under one of them
  is not contained in the other, and unpacking it there fails with that error.
\<close>

theorem C7_subspace_prefix:
  "(subspace_Contains s k \<longleftrightarrow> prefix (b s) k)
   \<and> (subspace_Unpack s k spare = Inl NotInSubspace \<longleftrightarrow> \<not> prefix (b s) k)
   \<and> subspace_Unpack s (b s @ rest) spare = Unpack rest spare
   \<and> (\<not> prefix (b s) (b s') \<and> \<not> prefix (b s') (b s) \<and> subspace_Pack s' t = Inr key
        \<longrightarrow> \<not> subspace_Contains s key \<and> subspace_Unpack s key spare = Inl NotInSubspace)"
proof (intro conjI impI)
  show c: "subspace_Contains s k \<longleftrightarrow> prefix (b s) k" for s k
    by (simp add: subspace_Contains_def HasPrefix_iff)
  show u: "subspace_Unpack s k spare = Inl NotInSubspace \<longleftrightarrow> \<not> prefix (b s) k" for s k
  proof
    assume "subspace_Unpack s k spare = Inl NotInSubspace"
    then show "\<not> prefix (b s) k"
      using subspace_Unpack_prefix [of s] Unpack_not_NotInSubspace by (auto simp: prefix_def)
  next
    assume "\<not> prefix (b s) k"
    then show "subspace_Unpack s k spare = Inl NotInSubspace"
      by (simp add: subspace_Unpack_def HasPrefix_iff)
  qed
  show "subspace_Unpack s (b s @ rest) spare = Unpack rest spare"
    by (rule subspace_Unpack_prefix)
  assume a: "\<not> prefix (b s) (b s') \<and> \<not> prefix (b s') (b s) \<and> subspace_Pack s' t = Inr key"
  then obtain p where "key = b s' @ p" using subspace_Pack_encodable by blast
  with a have n: "\<not> prefix (b s) key" using disjoint_prefix_append by blast
  from n show "\<not> subspace_Contains s key" by (simp add: c)
  from n show "subspace_Unpack s key spare = Inl NotInSubspace" by (simp add: u)
qed

lemma pack_under_users: "subspace_Pack \<lparr>b = [0x02, 0x75, 0x00]\<rparr> [Int64 1] = Inr [0x02, 0x75, 0x00, 0x15, 0x01]"
  by code_simp

theorem C7_subspace_prefix_witness:
  "\<not> prefix [0x02, 0x61, 0x00] [0x02, 0x75, 0x00 :: byte]
   \<and> \<not> prefix [0x02, 0x75, 0x00] [0x02, 0x61, 0x00 :: byte]
   \<and> subspace_Pack \<lparr>b = [0x02, 0x75, 0x00]\<rparr> [Int64 1] = Inr [0x02, 0x75, 0x00, 0x15, 0x01]
   \<and> \<not> subspace_Contains \<lparr>b = [0x02, 0x61, 0x00]\<rparr> [0x02, 0x75, 0x00, 0x15, 0x01]
   \<and> subspace_Unpack \<lparr>b = [0x02, 0x61, 0x00]\<rparr> [0x02, 0x75, 0x00, 0x15, 0x01] []
       = Inl NotInSubspace
   \<and> subspace_Contains \<lparr>b = [0x02, 0x75, 0x00]\<rparr> [0x02, 0x75, 0x00, 0x15, 0x01]
   \<and> subspace_Unpack \<lparr>b = [0x02, 0x75, 0x00]\<rparr> ([0x02, 0x75, 0x00] @ [0x15, 0x01]) []
       = Unpack [0x15, 0x01] []"
  using C7_subspace_prefix [of "\<lparr>b = [0x02, 0x61, 0x00]\<rparr>" "[0x02, 0x75, 0x00, 0x15, 0x01]"
      "[]" "[0x15, 0x01]" "\<lparr>b = [0x02, 0x75, 0x00]\<rparr>" "[Int64 1]"
      "[0x02, 0x75, 0x00, 0x15, 0x01]"]
    C7_subspace_prefix [of "\<lparr>b = [0x02, 0x75, 0x00]\<rparr>" "[0x02, 0x75, 0x00, 0x15, 0x01]"
      "[]" "[0x15, 0x01]" "\<lparr>b = [0x02, 0x75, 0x00]\<rparr>" "[Int64 1]"
      "[0x02, 0x75, 0x00, 0x15, 0x01]"]
    pack_under_users
  by simp

section \<open>Round trip and concatenation\<close>

text \<open>
  C2: for every tuple \<open>t\<close> whose elements are all of supported variants (a
  \<^verbatim>\<open>lex.KeyConvertible\<close> being one that yields its bytes), \<^verbatim>\<open>Pack\<close> returns a key, and
  \<^verbatim>\<open>Unpack\<close> of this key, in a slice of any capacity, succeeds and yields \<open>t\<close> with every element
  normalized: every integer-like element comes back as the \<^verbatim>\<open>int64\<close> it was converted to,
  every byte-convertible element as \<^verbatim>\<open>[]byte\<close>, so that all elements of the result are
  canonical, and nil, \<^verbatim>\<open>[]byte\<close>, \<^verbatim>\<open>string\<close> and \<^verbatim>\<open>int64\<close> elements come back unchanged.
\<close>

theorem C2_round_trip:
  "list_all encodable t \<Longrightarrow>
     (\<exists>bs. Pack t = Inr bs \<and> Unpack bs spare = Inr (map normalize t))
     \<and> list_all canonical (map normalize t)
     \<and> (list_all canonical t \<longrightarrow> map normalize t = t)"
  by (simp add: Pack_encodable Unpack_encodings list_all_iff normalize_canonical
      normalize_id map_idI)

theorem C2_round_trip_witness:
  "list_all encodable
     [Null, Uint64 0xFFFFFFFFFFFFFFFF, Bytes [0x00, 0x01, 0x00], KeyConvertible (Inr [0x61]),
      Str [0x62, 0x00], GoInt 5, Byte 7, Uint32 9, Int64 (- 300)]
   \<and> Unpack [0x00, 0x13, 0xFE, 0x01, 0x00, 0xFF, 0x01, 0x00, 0xFF, 0x00, 0x01, 0x61, 0x00,
          0x02, 0x62, 0x00, 0xFF, 0x00, 0x15, 0x05, 0x15, 0x07, 0x15, 0x09, 0x12, 0xFE, 0xD3] []
     = Inr [Null, Int64 (- 1), Bytes [0x00, 0x01, 0x00], Bytes [0x61],
            Str [0x62, 0x00], Int64 5, Int64 7, Int64 9, Int64 (- 300)]"
  using C2_round_trip [of "[Null, Uint64 0xFFFFFFFFFFFFFFFF, Bytes [0x00, 0x01, 0x00],
      KeyConvertible (Inr [0x61]), Str [0x62, 0x00], GoInt 5, Byte 7, Uint32 9, Int64 (- 300)]"
      "[]"]
    pack_mixed
  by simp

text \<open>
  C3: for tuples \<open>a\<close> and \<open>c\<close> of encodable elements, the concatenation of their packed
  forms is the packed form of the concatenated tuple, and unpacking it succeeds and
  yields the (normalized) elements of \<open>a\<close> followed by those of \<open>c\<close>.
\<close>

theorem C3_concatenation:
  "list_all encodable a \<Longrightarrow> list_all encodable c \<Longrightarrow>
     \<exists>pa pc. Pack a = Inr pa \<and> Pack c = Inr pc
       \<and> Pack (a @ c) = Inr (pa @ pc)
       \<and> Unpack (pa @ pc) spare = Inr (map normalize a @ map normalize c)"
proof -
  assume a: "list_all encodable a" and c: "list_all encodable c"
  then have ac: "list_all encodable (a @ c)" by simp
  show ?thesis
    using Pack_encodable [OF a] Pack_encodable [OF c] Pack_encodable [OF ac]
      Unpack_encodings [OF ac] by simp
qed

theorem C3_concatenation_witness:
  "list_all encodable [Str [0x61, 0x00], GoInt 1] \<and> list_all encodable [Bytes [], Null, Int64 (- 1)]
   \<and> Pack ([Str [0x61, 0x00], GoInt 1] @ [Bytes [], Null, Int64 (- 1)])
       = Inr ([0x02, 0x61, 0x00, 0xFF, 0x00, 0x15, 0x01] @ [0x01, 0x00, 0x00, 0x13, 0xFE])
   \<and> Unpack ([0x02, 0x61, 0x00, 0xFF, 0x00, 0x15, 0x01] @ [0x01, 0x00, 0x00, 0x13, 0xFE]) []
       = Inr ([Str [0x61, 0x00], Int64 1] @ [Bytes [], Null, Int64 (- 1)])"
  using C3_concatenation [of "[Str [0x61, 0x00], GoInt 1]" "[Bytes [], Null, Int64 (- 1)]" "[]"]
    pack_left pack_right
  by simp

section \<open>Unsigned integers are packed as the \<^verbatim>\<open>int64\<close> with the same bits\<close>

text \<open>
  C10: anywhere in a tuple, \<^verbatim>\<open>Pack\<close> treats a \<^verbatim>\<open>uint64\<close> element as the \<^verbatim>\<open>int64\<close> with the
  same bits, a \<^verbatim>\<open>uint32\<close> or \<^verbatim>\<open>byte\<close> element as its zero-extension to \<^verbatim>\<open>int64\<close>, and an
  \<^verbatim>\<open>int\<close> element as the same \<^verbatim>\<open>int64\<close>. In particular, for a \<^verbatim>\<open>uint64\<close> above
  \<open>2\<^sup>6\<^sup>3 - 1\<close> the converted value is the negative number \<open>value - 2\<^sup>6\<^sup>4\<close>, the packed form
  has a tag below \<^verbatim>\<open>0x14\<close> (that of a negative integer), and unpacking it returns that
  negative \<^verbatim>\<open>int64\<close>, not the unsigned value.
\<close>

theorem C10_unsigned_as_int64:
  "Pack (pre @ Uint64 e # post) = Pack (pre @ Int64 e # post)
   \<and> Pack (pre @ Uint32 e32 # post) = Pack (pre @ Int64 (ucast e32) # post)
   \<and> Pack (pre @ GoInt e # post) = Pack (pre @ Int64 e # post)
   \<and> Pack (pre @ Byte e8 # post) = Pack (pre @ Int64 (ucast e8) # post)
   \<and> (2 ^ 63 - 1 < uint e \<longrightarrow>
        sint e = uint e - 2 ^ 64 \<and> sint e < 0
        \<and> (\<exists>tag payload. Pack [Uint64 e] = Inr (tag # payload) \<and> tag < 0x14
              \<and> Unpack (tag # payload) spare = Inr [Int64 e]))"
proof (intro conjI impI)
  show "Pack (pre @ Uint64 e # post) = Pack (pre @ Int64 e # post)"
    unfolding Pack_def by (rule Pack_loop_cong_element) simp
  show "Pack (pre @ Uint32 e32 # post) = Pack (pre @ Int64 (ucast e32) # post)"
    unfolding Pack_def by (rule Pack_loop_cong_element) simp
  show "Pack (pre @ GoInt e # post) = Pack (pre @ Int64 e # post)"
    unfolding Pack_def by (rule Pack_loop_cong_element) simp
  show "Pack (pre @ Byte e8 # post) = Pack (pre @ Int64 (ucast e8) # post)"
    unfolding Pack_def by (rule Pack_loop_cong_element) simp
next
  assume a: "2 ^ 63 - 1 < uint e"
  show s: "sint e = uint e - 2 ^ 64" using a by (rule sint_of_large_uint)
  show neg: "sint e < 0" using s uint_lt2p [of e] by simp
  obtain tag payload where tp: "int_encoding_spec (sint e) = tag # payload" and t: "tag < 0x14"
    using int_encoding_spec_negative_tag [OF neg] by blast
  have p: "Pack [Uint64 e] = Inr (tag # payload)"
    using Pack_encodable [of "[Uint64 e]"] tp by simp
  have "Unpack (tag # payload) spare = Inr [Int64 e]"
    using Unpack_encodings [of "[Uint64 e]" spare] tp by simp
  with p t show "\<exists>tag payload. Pack [Uint64 e] = Inr (tag # payload) \<and> tag < 0x14
      \<and> Unpack (tag # payload) spare = Inr [Int64 e]" by blast
qed

theorem C10_unsigned_as_int64_witness:
  "2 ^ 63 - 1 < uint (0xFFFFFFFFFFFFFFFF :: uint64)
   \<and> sint (0xFFFFFFFFFFFFFFFF :: uint64) = - 1
   \<and> Pack [Uint64 0xFFFFFFFFFFFFFFFF] = Inr [0x13, 0xFE]
   \<and> Unpack [0x13, 0xFE] [] = Inr [Int64 0xFFFFFFFFFFFFFFFF]"
  using C10_unsigned_as_int64 [of "[]" "0xFFFFFFFFFFFFFFFF" "[]" 0 0 "[]"] pack_uint64_max
  by simp

section \<open>Decode-time failure\<close>

text \<open>
  The part of decoding that fails as documented: when the input consists of the packed
  form of a tuple of encodable elements followed by a byte \<open>c\<close> outside the typecodes
  \<^verbatim>\<open>00\<close>, \<^verbatim>\<open>01\<close>, \<^verbatim>\<open>02\<close>, \<^verbatim>\<open>0C..1C\<close> (and \<open>c\<close> is not an \<^verbatim>\<open>FF\<close> that directly follows the
  terminator of a string element), then, whatever follows, \<^verbatim>\<open>Unpack\<close> returns the error
  "unknown typecode" that carries the offending byte (and no offset), and no tuple.
\<close>

lemma Unpack_unknown_typecode:
  assumes "list_all encodable t"
    and "c \<noteq> 0x00" and "c \<noteq> 0x01" and "c \<noteq> 0x02" and "\<not> (0x0c \<le> c \<and> c \<le> 0x1c)"
    and "c = 0xFF \<longrightarrow> t = [] \<or> \<not> string_like (last t)"
  shows "\<exists>p. Pack t = Inr p \<and> Unpack (p @ c # rest) spare = Inl (UnknownTypecode c)"
proof -
  let ?p = "concat (map encoding t)"
  let ?bs = "?p @ c # rest"
  have "Unpack_loop ?bs spare 0 []
      = Unpack_loop ?bs spare (0 + length ?p) ([] @ map normalize t)"
    using assms(1,6) by (intro Unpack_loop_encodings [where rest = "c # rest"]) auto
  also have "\<dots> = Inl (UnknownTypecode c)"
    using Unpack_element_unknown [OF assms(2-5), of ?bs "length ?p" spare]
    by (subst Unpack_loop.simps) simp
  finally show ?thesis
    using Pack_encodable [OF assms(1)] by (simp add: Unpack_def)
qed

text \<open>
  C6: the claim is that \<^verbatim>\<open>Unpack\<close> reports a decode failure for every input that is not a
  valid encoding, truncated payloads included, as the comment of \<^verbatim>\<open>Unpack\<close> promises ("or
  an error if the key does not correctly encode a FoundationDB tuple"). The code does not
  do so on truncated payloads. For \<^verbatim>\<open>01 41\<close>, a byte string without its terminating
  \<^verbatim>\<open>00\<close>, \<^verbatim>\<open>findTerminator\<close> returns \<^verbatim>\<open>-1\<close> and the slice \<^verbatim>\<open>b[1:0]\<close> in \<^verbatim>\<open>decodeBytes\<close> panics.
  \<^verbatim>\<open>01 FF 14\<close>, again without terminator, is unpacked without error to an empty byte
  string and the integer zero, whose packed form is \<^verbatim>\<open>01 00 14\<close>; \<^verbatim>\<open>01 00 FF\<close>, the packed
  form of the byte string \<^verbatim>\<open>00\<close> without its terminator, is unpacked without error to that
  byte string. For \<^verbatim>\<open>15\<close>, an integer of one byte without its payload, the slice
  \<^verbatim>\<open>b[1:2]\<close> in \<^verbatim>\<open>decodeInt\<close> panics when the capacity of the input is its length, and
  when the array holds more bytes, the first of them, here \<^verbatim>\<open>07\<close>, is read and the integer
  7 is returned without error. The first three results hold whatever the capacity of the
  input is.
\<close>

theorem C6_truncated_payloads:
  "Unpack [0x01, 0x41] spare = Inl RuntimePanic
   \<and> Unpack [0x01, 0xFF, 0x14] spare = Inr [Bytes [], Int64 0]
   \<and> Pack [Bytes [], Int64 0] = Inr [0x01, 0x00, 0x14]
   \<and> Unpack [0x01, 0x00, 0xFF] spare = Inr [Bytes [0x00]]
   \<and> Pack [Bytes [0x00]] = Inr [0x01, 0x00, 0xFF, 0x00]
   \<and> Unpack [0x15] [] = Inl RuntimePanic
   \<and> Unpack [0x15] (0x07 # spare) = Inr [Int64 7]
   \<and> Pack [Int64 7] = Inr [0x15, 0x07]"
  using unpack_truncated_5 [of 7 spare]
  by (simp add: unpack_truncated_3 unpack_truncated_1 pack_truncated_1 unpack_truncated_2
      pack_truncated_2 unpack_truncated_4 pack_truncated_5)

section \<open>Prefix ranges\<close>

text \<open>
  C4: for every tuple \<open>p\<close> of encodable elements, \<^verbatim>\<open>LexRangeKeys\<close> returns the packed form
  of \<open>p\<close> followed by \<^verbatim>\<open>00\<close>, and the packed form followed by \<^verbatim>\<open>FF\<close>. For encodable
  elements \<open>x \<noteq> y\<close>, the packed forms of \<open>p\<close> extended by \<open>x\<close> and of \<open>p\<close> extended by \<open>y\<close> lie
  in the half-open range between the two keys; the packed form of \<open>p\<close> itself does not;
  and the packed form of a tuple \<open>q\<close> of encodable elements lies in the range exactly when
  \<open>q\<close> strictly extends \<open>p\<close> (elements compared after type normalization), so a tuple that
  does not strictly extend \<open>p\<close> falls outside.
\<close>

theorem C4_prefix_range:
  assumes "list_all encodable p" and "encodable x" and "encodable y" and "x \<noteq> y"
    and "list_all encodable q"
  shows "\<exists>pk kx ky kq.
      Pack p = Inr pk \<and> LexRangeKeys p = Inr (pk @ [0x00], pk @ [0xFF])
      \<and> Pack (p @ [x]) = Inr kx \<and> pk @ [0x00] \<le> kx \<and> kx < pk @ [0xFF]
      \<and> Pack (p @ [y]) = Inr ky \<and> pk @ [0x00] \<le> ky \<and> ky < pk @ [0xFF]
      \<and> \<not> (pk @ [0x00] \<le> pk \<and> pk < pk @ [0xFF])
      \<and> Pack q = Inr kq
      \<and> ((pk @ [0x00] \<le> kq \<and> kq < pk @ [0xFF])
           = strict_prefix (map normalize p) (map normalize q))"
proof -
  let ?pk = "concat (map encoding p)"
  have pp: "Pack p = Inr ?pk" using assms(1) by (rule Pack_encodable)
  have lr: "LexRangeKeys p = Inr (?pk @ [0x00], ?pk @ [0xFF])"
    by (simp add: LexRangeKeys_def pp concat_bytes_append)
  have px: "Pack (p @ [x]) = Inr (concat (map encoding (p @ [x])))"
    using assms(1,2) by (intro Pack_encodable) simp
  have py: "Pack (p @ [y]) = Inr (concat (map encoding (p @ [y])))"
    using assms(1,3) by (intro Pack_encodable) simp
  have rx: "?pk @ [0x00] \<le> concat (map encoding (p @ [x]))
      \<and> concat (map encoding (p @ [x])) < ?pk @ [0xFF]"
    using assms(1,2) by (intro extension_in_range) simp_all
  have ry: "?pk @ [0x00] \<le> concat (map encoding (p @ [y]))
      \<and> concat (map encoding (p @ [y])) < ?pk @ [0xFF]"
    using assms(1,3) by (intro extension_in_range) simp_all
  have self: "\<not> (?pk @ [0x00] \<le> ?pk \<and> ?pk < ?pk @ [0xFF])"
    by (subst in_range_iff) simp
  have pq: "Pack q = Inr (concat (map encoding q))" using assms(5) by (rule Pack_encodable)
  have iff: "(?pk @ [0x00] \<le> concat (map encoding q) \<and> concat (map encoding q) < ?pk @ [0xFF])
      = strict_prefix (map normalize p) (map normalize q)"
    using in_range_extension [OF assms(1,5)] strict_prefix_in_range [OF assms(1,5)] by blast
  show ?thesis
    using pp lr px py rx ry self pq iff by blast
qed

theorem C4_prefix_range_witness:
  "list_all encodable [Str [0x75]] \<and> encodable (Int64 1) \<and> encodable Null \<and> Int64 1 \<noteq> Null
   \<and> list_all encodable [Str [0x75, 0x00]]
   \<and> LexRangeKeys [Str [0x75]] = Inr ([0x02, 0x75, 0x00] @ [0x00], [0x02, 0x75, 0x00] @ [0xFF])
   \<and> [0x02, 0x75, 0x00] @ [0x00] \<le> [0x02, 0x75, 0x00, 0x15, 0x01 :: byte]
   \<and> [0x02, 0x75, 0x00, 0x15, 0x01] < [0x02, 0x75, 0x00] @ [0xFF :: byte]
   \<and> [0x02, 0x75, 0x00] @ [0x00] \<le> [0x02, 0x75, 0x00, 0x00 :: byte]
   \<and> [0x02, 0x75, 0x00, 0x00] < [0x02, 0x75, 0x00] @ [0xFF :: byte]
   \<and> \<not> strict_prefix (map normalize [Str [0x75]]) (map normalize [Str [0x75, 0x00]])
   \<and> \<not> ([0x02, 0x75, 0x00] @ [0x00] \<le> [0x02, 0x75, 0x00, 0xFF, 0x00 :: byte]
          \<and> [0x02, 0x75, 0x00, 0xFF, 0x00] < [0x02, 0x75, 0x00] @ [0xFF :: byte])"
  using C4_prefix_range [of "[Str [0x75]]" "Int64 1" Null "[Str [0x75, 0x00]]"]
    pack_u pack_u_1 pack_u_nil pack_u0
  by (auto simp: strict_prefix_def)

section \<open>Order preservation\<close>

text \<open>
  C1: for all tuples \<open>A\<close> and \<open>B\<close> built from the canonical variants (nil, byte string,
  unicode string, \<^verbatim>\<open>int64\<close>), both are packed, and \<open>A\<close> is below \<open>B\<close> in the tuple order of
  the specification if and only if the packed form of \<open>A\<close> is below the packed form of
  \<open>B\<close> in the lexicographic order of byte sequences.
\<close>

theorem C1_order_preservation:
  assumes "list_all canonical A" and "list_all canonical B"
  shows "\<exists>pa pb. Pack A = Inr pa \<and> Pack B = Inr pb \<and> (tuple_less A B \<longleftrightarrow> pa < pb)"
proof -
  let ?pa = "concat (map encoding A)" and ?pb = "concat (map encoding B)"
  have sa: "list_all encodable A" and sb: "list_all encodable B"
    using assms by (simp_all add: list_all_iff canonical_encodable)
  have "tuple_less A B \<longleftrightarrow> ?pa < ?pb"
  proof
    assume "tuple_less A B"
    then show "?pa < ?pb" using assms by (intro tuple_less_encodings)
  next
    assume l: "?pa < ?pb"
    from tuple_trichotomy [OF assms]
    show "tuple_less A B"
    proof (elim disjE)
      assume "A = B"
      with l show ?thesis by simp
    next
      assume "tuple_less B A"
      then have "?pb < ?pa" using assms by (intro tuple_less_encodings)
      with l show ?thesis by simp
    qed
  qed
  then show ?thesis
    using Pack_encodable [OF sa] Pack_encodable [OF sb] by simp
qed

theorem C1_order_preservation_witness:
  "list_all canonical [Bytes [0x61], Int64 (- 256)]
   \<and> list_all canonical [Bytes [0x61, 0x00], Null]
   \<and> tuple_less [Bytes [0x61], Int64 (- 256)] [Bytes [0x61, 0x00], Null]
   \<and> Pack [Bytes [0x61], Int64 (- 256)] = Inr [0x01, 0x61, 0x00, 0x12, 0xFE, 0xFF]
   \<and> Pack [Bytes [0x61, 0x00], Null] = Inr [0x01, 0x61, 0x00, 0xFF, 0x00, 0x00]
   \<and> [0x01, 0x61, 0x00, 0x12, 0xFE, 0xFF] < [0x01, 0x61, 0x00, 0xFF, 0x00, 0x00 :: byte]"
  using C1_order_preservation [of "[Bytes [0x61], Int64 (- 256)]" "[Bytes [0x61, 0x00], Null]"]
    pack_a_minus_256 pack_a0_nil
  by simp

end
